theory Spec2Isabelle
  imports Main "HOL-Library.List_Lexorder"
begin

section \<open>Data model\<close>

text \<open>
  A Python \<open>str\<close> is a sequence of Unicode code points and is compared code point by
  code point, a proper prefix being smaller.  It is modelled as a list of naturals under
  the lexicographic order of \<open>HOL-Library.List_Lexorder\<close>.  Python's \<open>bytes\<close> are lists of
  naturals below 256.
\<close>

type_synonym pystr = "nat list"
type_synonym pybytes = "nat list"

datatype error = ValueError | KeyError | UnicodeEncodeError | UnicodeDecodeError | BinasciiError

text \<open>Code points: \<open>chr\<close> accepts \<open>range(0x110000)\<close>; the surrogates cannot be encoded.\<close>

definition is_codepoint :: "nat \<Rightarrow> bool" where
  "is_codepoint c = (c < 0x110000)"

definition is_surrogate :: "nat \<Rightarrow> bool" where
  "is_surrogate c = (0xD800 \<le> c \<and> c \<le> 0xDFFF)"

definition encodable :: "pystr \<Rightarrow> bool" where
  "encodable s = list_all (\<lambda>c. is_codepoint c \<and> \<not> is_surrogate c) s"

text \<open>Exceptions propagate through a sequence of calls.\<close>

definition bind_err :: "error + 'a \<Rightarrow> ('a \<Rightarrow> error + 'b) \<Rightarrow> error + 'b" where
  "bind_err r f = (case r of Inl e \<Rightarrow> Inl e | Inr x \<Rightarrow> f x)"

section \<open>The store: \<open>Rdict\<close>\<close>

text \<open>
  \<open>Rdict\<close> is the ordered key-value engine the class wraps; it is not part of the
  repository and is modelled by what its operations are documented to do.  Its contents
  are the list of its key-value pairs in the engine's key order, which for string keys
  is the order of the UTF-8 encodings and so the code point order of Python.  Keys are
  unique, hence strictly ascending (\<open>wf_store\<close>), and they are strings that UTF-8 can
  encode (\<open>valid_keys\<close>).  The engine encodes every string it is given as a key or as a
  seek target, so each of its operations raises \<open>UnicodeEncodeError\<close> for a string with a lone
  surrogate.  Only the target that \<open>BaseRocksDB\<close> selects is modelled; the optional
  arguments \<open>rdict\<close>, \<open>options\<close> and \<open>fill_cache\<close> do not change what is returned.
\<close>

type_synonym 'v rdict = "(pystr \<times> 'v) list"

definition wf_store :: "'v rdict \<Rightarrow> bool" where
  "wf_store db = sorted_wrt (<) (map fst db)"

definition valid_keys :: "'v rdict \<Rightarrow> bool" where
  "valid_keys db = list_all (\<lambda>kv. encodable (fst kv)) db"

text \<open>\<open>Rdict.get(key, default)\<close>: the stored value, or \<open>default\<close> for a missing key.\<close>

definition rdict_get :: "'v rdict \<Rightarrow> pystr \<Rightarrow> 'v option \<Rightarrow> error + 'v option" where
  "rdict_get db key dflt =
     (if \<not> encodable key then Inl UnicodeEncodeError
      else case map_of db key of Some v \<Rightarrow> Inr (Some v) | None \<Rightarrow> Inr dflt)"

text \<open>\<open>Rdict.__delitem__\<close>: writes a deletion for the key, whether or not it is stored.\<close>

definition rdict_delitem :: "'v rdict \<Rightarrow> pystr \<Rightarrow> error + 'v rdict" where
  "rdict_delitem db key =
     (if \<not> encodable key then Inl UnicodeEncodeError
      else Inr (filter (\<lambda>kv. fst kv \<noteq> key) db))"

text \<open>\<open>Rdict.put\<close>: stores the pair at its place in key order, replacing an older value.\<close>

fun insert_pair :: "'v rdict \<Rightarrow> pystr \<Rightarrow> 'v \<Rightarrow> 'v rdict" where
  "insert_pair [] key v = [(key, v)]"
| "insert_pair ((k, w) # db) key v =
     (if key < k then (key, v) # (k, w) # db
      else if key = k then (k, v) # db
      else (k, w) # insert_pair db key v)"

definition rdict_put :: "'v rdict \<Rightarrow> pystr \<Rightarrow> 'v \<Rightarrow> error + 'v rdict" where
  "rdict_put db key v =
     (if \<not> encodable key then Inl UnicodeEncodeError else Inr (insert_pair db key v))"

subsection \<open>The iterator of the store\<close>

text \<open>
  An iterator is a position in the ordered contents, or invalid (\<open>None\<close>).
  \<open>seek\<close> moves to the first key at or after the target, \<open>seek_for_prev\<close> to the last key
  at or before it; both raise when the target cannot be encoded.
\<close>

type_synonym rdict_iter = "nat option"

definition valid :: "'v rdict \<Rightarrow> rdict_iter \<Rightarrow> bool" where
  "valid db it = (case it of None \<Rightarrow> False | Some i \<Rightarrow> i < length db)"

definition seek :: "'v rdict \<Rightarrow> pystr \<Rightarrow> error + rdict_iter" where
  "seek db k =
     (if \<not> encodable k then Inl UnicodeEncodeError
      else
        (let i = length (takeWhile (\<lambda>kv. fst kv < k) db)
         in Inr (if i < length db then Some i else None)))"

definition seek_for_prev :: "'v rdict \<Rightarrow> pystr \<Rightarrow> error + rdict_iter" where
  "seek_for_prev db k =
     (if \<not> encodable k then Inl UnicodeEncodeError
      else
        (let n = length (takeWhile (\<lambda>kv. fst kv \<le> k) db)
         in Inr (if n = 0 then None else Some (n - 1))))"

definition seek_to_first :: "'v rdict \<Rightarrow> rdict_iter" where
  "seek_to_first db = (if db = [] then None else Some 0)"

definition seek_to_last :: "'v rdict \<Rightarrow> rdict_iter" where
  "seek_to_last db = (if db = [] then None else Some (length db - 1))"

definition it_next :: "'v rdict \<Rightarrow> rdict_iter \<Rightarrow> rdict_iter" where
  "it_next db it =
     (case it of None \<Rightarrow> None
      | Some i \<Rightarrow> if Suc i < length db then Some (Suc i) else None)"

definition it_prev :: "'v rdict \<Rightarrow> rdict_iter \<Rightarrow> rdict_iter" where
  "it_prev db it =
     (case it of None \<Rightarrow> None
      | Some i \<Rightarrow> (case i of 0 \<Rightarrow> None | Suc j \<Rightarrow> Some j))"

section \<open>\<open>BaseRocksDB\<close>\<close>

subsection \<open>\<open>get\<close> and \<open>delete\<close>\<close>

text \<open>
  \<open>get\<close> returns what the store's \<open>get\<close> returns and turns a \<open>KeyError\<close> into the default;
  every other exception propagates.  \<open>except_key_error\<close> is the \<open>try\<close> statement around
  the call of the store.
\<close>

definition except_key_error :: "error + 'a \<Rightarrow> 'a \<Rightarrow> error + 'a" where
  "except_key_error r dflt =
     (case r of
        Inl e \<Rightarrow> (if e = KeyError then Inr dflt else Inl e)
      | Inr v \<Rightarrow> Inr v)"

definition get :: "'v rdict \<Rightarrow> pystr \<Rightarrow> 'v option \<Rightarrow> error + 'v option" where
  "get db key dflt = except_key_error (rdict_get db key dflt) dflt"

text \<open>\<open>delete\<close> is \<open>del target[key]\<close>; the new contents of the store are returned.\<close>

definition delete :: "'v rdict \<Rightarrow> pystr \<Rightarrow> error + 'v rdict" where
  "delete db key = rdict_delitem db key"

subsection \<open>\<open>iter\<close>\<close>

record iter_args =
  prefix :: "pystr option"
  start :: "pystr option"
  "end" :: "pystr option"
  reverse :: bool

definition startswith :: "pystr \<Rightarrow> pystr \<Rightarrow> bool" where
  "startswith key p = (take (length p) key = p)"

text \<open>\<open>chr(n)\<close> raises \<open>ValueError\<close> outside \<open>range(0x110000)\<close>.\<close>

definition chr :: "nat \<Rightarrow> error + nat" where
  "chr n = (if n < 0x110000 then Inr n else Inl ValueError)"

text \<open>\<open>prefix[:-1] + chr(ord(prefix[-1]) + 1)\<close>, for a non-empty prefix.\<close>

definition prefix_upper :: "pystr \<Rightarrow> error + pystr" where
  "prefix_upper p = bind_err (chr (last p + 1)) (\<lambda>c. Inr (butlast p @ [c]))"

definition has_prefix_arg :: "pystr option \<Rightarrow> bool" where
  "has_prefix_arg p = (case p of None \<Rightarrow> False | Some q \<Rightarrow> q \<noteq> [])"

text \<open>The bounds after the prefix has filled in the missing ones.\<close>

definition prefix_bounds ::
  "pystr option \<Rightarrow> pystr option \<Rightarrow> pystr option \<Rightarrow> error + (pystr option \<times> pystr option)" where
  "prefix_bounds p s e =
     (case p of
        None \<Rightarrow> Inr (s, e)
      | Some q \<Rightarrow>
          if q = [] then Inr (s, e)
          else
            (let s' = (case s of None \<Rightarrow> Some q | Some x \<Rightarrow> Some x)
             in case e of
                  Some y \<Rightarrow> Inr (s', Some y)
                | None \<Rightarrow> bind_err (prefix_upper q) (\<lambda>u. Inr (s', Some u))))"

text \<open>In reverse mode, bounds given high-first are exchanged.\<close>

definition swap_bounds :: "bool \<Rightarrow> pystr option \<Rightarrow> pystr option \<Rightarrow> pystr option \<times> pystr option" where
  "swap_bounds rv s e =
     (case (s, e) of
        (Some x, Some y) \<Rightarrow> if rv \<and> x > y then (Some y, Some x) else (Some x, Some y)
      | _ \<Rightarrow> (s, e))"

definition below :: "pystr option \<Rightarrow> pystr \<Rightarrow> bool" where
  \<comment> \<open>\<open>start is not None and key < start\<close>\<close>
  "below s key = (case s of None \<Rightarrow> False | Some x \<Rightarrow> key < x)"

definition at_or_above :: "pystr option \<Rightarrow> pystr \<Rightarrow> bool" where
  \<comment> \<open>\<open>end is not None and key >= end\<close>\<close>
  "at_or_above e key = (case e of None \<Rightarrow> False | Some y \<Rightarrow> key \<ge> y)"

text \<open>
  The \<open>while it.valid()\<close> loop; the result is the list of the pairs yielded.  A \<open>break\<close>
  ends the list, a \<open>continue\<close> moves on without yielding.
\<close>

function iter_loop ::
  "'v rdict \<Rightarrow> pystr option \<Rightarrow> pystr option \<Rightarrow> pystr option \<Rightarrow> bool \<Rightarrow> rdict_iter
     \<Rightarrow> (pystr \<times> 'v) list" where
  "iter_loop db p s e rv it =
     (if \<not> valid db it then []
      else
        (let i = (case it of Some j \<Rightarrow> j | None \<Rightarrow> 0);
             key = fst (db ! i);
             step = (if rv then it_prev db it else it_next db it)
         in
           if rv \<and> below s key then []
           else if rv \<and> at_or_above e key then iter_loop db p s e rv step
           else if \<not> rv \<and> at_or_above e key then []
           else if \<not> rv \<and> below s key then iter_loop db p s e rv step
           else if has_prefix_arg p \<and> \<not> startswith key (case p of Some q \<Rightarrow> q | None \<Rightarrow> []) then
             (if rv then
                (if key < (case p of Some q \<Rightarrow> q | None \<Rightarrow> []) then []
                 else iter_loop db p s e rv step)
              else
                (if key > (case p of Some q \<Rightarrow> q | None \<Rightarrow> []) then []
                 else iter_loop db p s e rv step))
           else db ! i # iter_loop db p s e rv step))"
  by pat_completeness auto
termination
  by (relation "measure (\<lambda>(db, p, s, e, rv, it).
        case it of None \<Rightarrow> 0 | Some i \<Rightarrow> if rv then Suc i else length db - i)")
     (auto simp: valid_def it_next_def it_prev_def split: option.splits nat.splits)

declare iter_loop.simps [simp del]

text \<open>
  Positioning the iterator, the validity check and the loop.  When the iterator is not
  valid after positioning, nothing is yielded; in reverse mode with a \<open>start\<close> the code
  first calls \<open>seek_for_prev(start)\<close>, which changes nothing but raises when \<open>start\<close>
  cannot be encoded.
\<close>

definition iter_run ::
  "'v rdict \<Rightarrow> pystr option \<Rightarrow> pystr option \<Rightarrow> pystr option \<Rightarrow> bool
     \<Rightarrow> error + (pystr \<times> 'v) list" where
  "iter_run db p s e rv =
     bind_err
       (if rv
        then (case e of Some y \<Rightarrow> seek_for_prev db y | None \<Rightarrow> Inr (seek_to_last db))
        else (case s of Some x \<Rightarrow> seek db x | None \<Rightarrow> Inr (seek_to_first db)))
       (\<lambda>it.
          if \<not> valid db it then
            (if rv then
               (case s of
                  Some x \<Rightarrow> bind_err (seek_for_prev db x) (\<lambda>_. Inr [])
                | None \<Rightarrow> Inr [])
             else Inr [])
          else Inr (iter_loop db p s e rv it))"

text \<open>
  \<open>iter\<close> is a generator; its result is the list of everything it yields, or the exception
  it raises when it is started.
\<close>

definition iter :: "'v rdict \<Rightarrow> iter_args \<Rightarrow> error + (pystr \<times> 'v) list" where
  "iter db a =
     bind_err (prefix_bounds (prefix a) (start a) (end a)) (\<lambda>(s0, e0).
       let (s, e) = swap_bounds (reverse a) s0 e0
       in iter_run db (prefix a) s e (reverse a))"

subsection \<open>\<open>items\<close>\<close>

text \<open>
  \<open>itertools.islice(iterator, limit)\<close> rejects a limit outside \<open>0 .. sys.maxsize\<close> when it is
  built; with limit 0 the generator is never started, so an exception it would raise
  is not seen.  Otherwise \<open>list(islice(...))\<close> is the first \<open>limit\<close> pairs the generator
  yields, or its exception.
\<close>

definition sys_maxsize :: int where
  "sys_maxsize = 2 ^ 63 - 1"

definition islice :: "error + 'a list \<Rightarrow> int \<Rightarrow> error + 'a list" where
  "islice gen n =
     (if n < 0 \<or> n > sys_maxsize then Inl ValueError
      else if n = 0 then Inr []
      else bind_err gen (\<lambda>xs. Inr (take (nat n) xs)))"

definition items :: "'v rdict \<Rightarrow> iter_args \<Rightarrow> int option \<Rightarrow> error + (pystr \<times> 'v) list" where
  "items db kw limit =
     (case limit of
        Some n \<Rightarrow> islice (iter db kw) n
      | None \<Rightarrow> iter db kw)"

subsection \<open>Cursors\<close>

text \<open>
  \<open>str.encode()\<close> is UTF-8 and raises on a surrogate; \<open>bytes.decode()\<close> is strict UTF-8.
\<close>

definition utf8_char :: "nat \<Rightarrow> pybytes" where
  "utf8_char c =
     (if c < 0x80 then [c]
      else if c < 0x800 then [0xC0 + c div 0x40, 0x80 + c mod 0x40]
      else if c < 0x10000 then
        [0xE0 + c div 0x1000, 0x80 + (c div 0x40) mod 0x40, 0x80 + c mod 0x40]
      else
        [0xF0 + c div 0x40000, 0x80 + (c div 0x1000) mod 0x40,
         0x80 + (c div 0x40) mod 0x40, 0x80 + c mod 0x40])"

definition str_encode :: "pystr \<Rightarrow> error + pybytes" where
  "str_encode s =
     (if encodable s then Inr (concat (map utf8_char s)) else Inl UnicodeEncodeError)"

definition is_cont :: "nat \<Rightarrow> bool" where
  "is_cont b = (0x80 \<le> b \<and> b \<le> 0xBF)"

definition second_of3 :: "nat \<Rightarrow> nat \<Rightarrow> bool" where
  \<comment> \<open>the second byte of a three-byte sequence: no overlong form, no surrogate\<close>
  "second_of3 b0 b1 =
     (if b0 = 0xE0 then 0xA0 \<le> b1 \<and> b1 \<le> 0xBF
      else if b0 = 0xED then 0x80 \<le> b1 \<and> b1 \<le> 0x9F
      else is_cont b1)"

definition second_of4 :: "nat \<Rightarrow> nat \<Rightarrow> bool" where
  \<comment> \<open>the second byte of a four-byte sequence: no overlong form, nothing above U+10FFFF\<close>
  "second_of4 b0 b1 =
     (if b0 = 0xF0 then 0x90 \<le> b1 \<and> b1 \<le> 0xBF
      else if b0 = 0xF4 then 0x80 \<le> b1 \<and> b1 \<le> 0x8F
      else is_cont b1)"

definition cons_ok :: "'a \<Rightarrow> error + 'a list \<Rightarrow> error + 'a list" where
  "cons_ok x r = bind_err r (\<lambda>xs. Inr (x # xs))"

fun bytes_decode :: "pybytes \<Rightarrow> error + pystr" where
  "bytes_decode [] = Inr []"
| "bytes_decode (b0 # bs) =
     (if b0 < 0x80 then cons_ok b0 (bytes_decode bs)
      else if 0xC2 \<le> b0 \<and> b0 \<le> 0xDF then
        (case bs of
           b1 # r \<Rightarrow>
             if is_cont b1
             then cons_ok ((b0 - 0xC0) * 0x40 + (b1 - 0x80)) (bytes_decode r)
             else Inl UnicodeDecodeError
         | _ \<Rightarrow> Inl UnicodeDecodeError)
      else if 0xE0 \<le> b0 \<and> b0 \<le> 0xEF then
        (case bs of
           b1 # b2 # r \<Rightarrow>
             if second_of3 b0 b1 \<and> is_cont b2
             then cons_ok ((b0 - 0xE0) * 0x1000 + (b1 - 0x80) * 0x40 + (b2 - 0x80))
                    (bytes_decode r)
             else Inl UnicodeDecodeError
         | _ \<Rightarrow> Inl UnicodeDecodeError)
      else if 0xF0 \<le> b0 \<and> b0 \<le> 0xF4 then
        (case bs of
           b1 # b2 # b3 # r \<Rightarrow>
             if second_of4 b0 b1 \<and> is_cont b2 \<and> is_cont b3
             then cons_ok ((b0 - 0xF0) * 0x40000 + (b1 - 0x80) * 0x1000
                           + (b2 - 0x80) * 0x40 + (b3 - 0x80))
                    (bytes_decode r)
             else Inl UnicodeDecodeError
         | _ \<Rightarrow> Inl UnicodeDecodeError)
      else Inl UnicodeDecodeError)"

text \<open>
  Base64.  Three bytes give four six-bit digits; a last group of one or two bytes is
  padded (\<open>None\<close> stands for the padding character \<open>=\<close>).
\<close>

fun b64_digits :: "pybytes \<Rightarrow> nat option list" where
  "b64_digits [] = []"
| "b64_digits [a] = [Some (a div 4), Some ((a mod 4) * 16), None, None]"
| "b64_digits [a, b] =
     [Some (a div 4), Some ((a mod 4) * 16 + b div 16), Some ((b mod 16) * 4), None]"
| "b64_digits (a # b # c # rest) =
     [Some (a div 4), Some ((a mod 4) * 16 + b div 16),
      Some ((b mod 16) * 4 + c div 64), Some (c mod 64)] @ b64_digits rest"

definition table_b2a :: "nat \<Rightarrow> nat" where
  \<comment> \<open>\<open>A-Z a-z 0-9 + /\<close>\<close>
  "table_b2a d =
     (if d < 26 then 65 + d
      else if d < 52 then 97 + (d - 26)
      else if d < 62 then 48 + (d - 52)
      else if d = 62 then 43
      else 47)"

definition table_a2b :: "nat \<Rightarrow> nat option" where
  "table_a2b c =
     (if 65 \<le> c \<and> c \<le> 90 then Some (c - 65)
      else if 97 \<le> c \<and> c \<le> 122 then Some (c - 97 + 26)
      else if 48 \<le> c \<and> c \<le> 57 then Some (c - 48 + 52)
      else if c = 43 then Some 62
      else if c = 47 then Some 63
      else None)"

definition b64encode :: "pybytes \<Rightarrow> pybytes" where
  "b64encode bs = map (\<lambda>d. case d of None \<Rightarrow> 61 | Some x \<Rightarrow> table_b2a x) (b64_digits bs)"

definition urlsafe_b64encode :: "pybytes \<Rightarrow> pybytes" where
  \<comment> \<open>\<open>+\<close> becomes \<open>-\<close> and \<open>/\<close> becomes \<open>_\<close>\<close>
  "urlsafe_b64encode bs =
     map (\<lambda>c. if c = 43 then 45 else if c = 47 then 95 else c) (b64encode bs)"

text \<open>
  \<open>binascii.a2b_base64\<close> without strict mode, as \<open>base64.urlsafe_b64decode\<close> calls it:
  characters outside the alphabet are skipped, padding ends the input once the current
  group holds at least two digits and is complete with it, and input that stops inside
  a group is an error.  The state is the position in the group, the bits left over and
  the number of padding characters seen.  (This follows the decoder of CPython 3.11; older
  versions treat some malformed inputs differently and agree on all output of the
  encoder.)
\<close>

fun a2b_base64 :: "pybytes \<Rightarrow> nat \<Rightarrow> nat \<Rightarrow> nat \<Rightarrow> error + pybytes" where
  "a2b_base64 [] quad_pos leftchar pads =
     (if quad_pos \<noteq> 0 then Inl BinasciiError else Inr [])"
| "a2b_base64 (c # cs) quad_pos leftchar pads =
     (if c = 61 then
        (if quad_pos \<ge> 2 \<and> quad_pos + (pads + 1) \<ge> 4 then Inr []
         else a2b_base64 cs quad_pos leftchar (if quad_pos \<ge> 2 then pads + 1 else pads))
      else
        (case table_a2b c of
           None \<Rightarrow> a2b_base64 cs quad_pos leftchar pads
         | Some d \<Rightarrow>
             if quad_pos = 0 then a2b_base64 cs 1 d 0
             else if quad_pos = 1 then
               cons_ok (leftchar * 4 + d div 16) (a2b_base64 cs 2 (d mod 16) 0)
             else if quad_pos = 2 then
               cons_ok (leftchar * 16 + d div 4) (a2b_base64 cs 3 (d mod 4) 0)
             else
               cons_ok (leftchar * 64 + d) (a2b_base64 cs 0 0 0)))"

definition urlsafe_b64decode :: "pybytes \<Rightarrow> error + pybytes" where
  \<comment> \<open>\<open>-\<close> becomes \<open>+\<close> and \<open>_\<close> becomes \<open>/\<close>, then the standard decoder\<close>
  "urlsafe_b64decode s =
     a2b_base64 (map (\<lambda>c. if c = 45 then 43 else if c = 95 then 47 else c) s) 0 0 0"

text \<open>\<open>_encode_cursor\<close> and \<open>_decode_cursor\<close>; keys are strings, so \<open>str(key)\<close> is the key.\<close>

definition encode_cursor :: "pystr \<Rightarrow> error + pystr" where
  "encode_cursor key =
     bind_err (str_encode key) (\<lambda>b. bytes_decode (urlsafe_b64encode b))"

definition decode_cursor :: "pystr \<Rightarrow> error + pystr" where
  "decode_cursor cursor =
     bind_err (str_encode cursor) (\<lambda>b.
     bind_err (urlsafe_b64decode b) (\<lambda>raw.
     bind_err (bytes_decode raw) (\<lambda>key. Inr (key @ [0]))))"

subsection \<open>\<open>paginate\<close>\<close>

text \<open>
  The dictionary returned by \<open>paginate\<close>; \<open>page_items\<close> is its entry \<open>items\<close>, and
  \<open>prev_cursor\<close> is \<open>None\<close> when the entry is absent.  The keyword arguments that
  \<open>paginate\<close> hands on to \<open>items\<close> are those of \<open>iter\<close>; a \<open>limit\<close> among them is removed
  and replaced by \<open>page_size + 1\<close>.
\<close>

record 'v page =
  page_items :: "(pystr \<times> 'v) list"
  has_more :: bool
  next_cursor :: "pystr option"
  prev_cursor :: "pystr option"

text \<open>The slice \<open>xs[:n]\<close>; a negative \<open>n\<close> counts from the end.\<close>

definition slice_to :: "'a list \<Rightarrow> int \<Rightarrow> 'a list" where
  "slice_to xs n =
     (if n \<ge> 0 then take (nat n) xs else take (nat (int (length xs) + n)) xs)"

definition truthy :: "pystr option \<Rightarrow> bool" where
  \<comment> \<open>\<open>if cursor:\<close> holds for a string that is neither \<open>None\<close> nor empty\<close>
  "truthy c = (case c of None \<Rightarrow> False | Some s \<Rightarrow> s \<noteq> [])"

definition paginate ::
  "'v rdict \<Rightarrow> int \<Rightarrow> pystr option \<Rightarrow> bool \<Rightarrow> iter_args \<Rightarrow> error + 'v page" where
  "paginate db page_size cursor include_cursor kwargs =
     bind_err
       (case cursor of
          None \<Rightarrow> Inr kwargs
        | Some c \<Rightarrow>
            if c \<noteq> [] then bind_err (decode_cursor c) (\<lambda>k. Inr (kwargs\<lparr>start := Some k\<rparr>))
            else Inr kwargs)
       (\<lambda>kw.
     bind_err (items db kw (Some (page_size + 1))) (\<lambda>fetched.
       let more = (int (length fetched) > page_size);
           its = (if more then slice_to fetched page_size else fetched)
       in bind_err
            (if more \<and> its \<noteq> [] then bind_err (encode_cursor (fst (last its))) (\<lambda>c. Inr (Some c))
             else Inr None)
            (\<lambda>nc.
              Inr \<lparr>page_items = its, has_more = more, next_cursor = nc,
                   prev_cursor = (if include_cursor \<and> truthy cursor then cursor else None)\<rparr>)))"

text \<open>
  A caller that reads everything: it asks for the first page without a cursor and then
  passes each \<open>next_cursor\<close> to the next call, until a page says that there is no more
  or gives no cursor.  The fuel bounds the number of calls; \<open>None\<close> means it ran out.
\<close>

definition no_kwargs :: iter_args where
  "no_kwargs = \<lparr>prefix = None, start = None, end = None, reverse = False\<rparr>"

fun paginate_all ::
  "nat \<Rightarrow> 'v rdict \<Rightarrow> int \<Rightarrow> pystr option \<Rightarrow> (error + 'v page list) option" where
  "paginate_all 0 db page_size cursor = None"
| "paginate_all (Suc fuel) db page_size cursor =
     (case paginate db page_size cursor True no_kwargs of
        Inl e \<Rightarrow> Some (Inl e)
      | Inr r \<Rightarrow>
          if \<not> has_more r \<or> \<not> truthy (next_cursor r) then Some (Inr [r])
          else
            (case paginate_all fuel db page_size (next_cursor r) of
               None \<Rightarrow> None
             | Some (Inl e) \<Rightarrow> Some (Inl e)
             | Some (Inr rs) \<Rightarrow> Some (Inr (r # rs))))"

section \<open>What an iteration should return\<close>

text \<open>
  The reference against which \<open>iter\<close> is compared: a key is selected when it lies in the
  half-open interval of the bounds and starts with the prefix.
\<close>

definition in_bounds :: "pystr option \<Rightarrow> pystr option \<Rightarrow> pystr \<Rightarrow> bool" where
  "in_bounds s e k = ((case s of None \<Rightarrow> True | Some x \<Rightarrow> x \<le> k) \<and> (case e of None \<Rightarrow> True | Some y \<Rightarrow> k < y))"

definition matches_prefix :: "pystr option \<Rightarrow> pystr \<Rightarrow> bool" where
  "matches_prefix p k = (case p of None \<Rightarrow> True | Some q \<Rightarrow> startswith k q)"

definition selected :: "pystr option \<Rightarrow> pystr option \<Rightarrow> pystr option \<Rightarrow> (pystr \<times> 'v) \<Rightarrow> bool" where
  "selected p s e kv = (in_bounds s e (fst kv) \<and> matches_prefix p (fst kv))"

text \<open>A bound that the store can seek: absent, or a string that UTF-8 can encode.\<close>

definition encodable_bound :: "pystr option \<Rightarrow> bool" where
  "encodable_bound b = (case b of None \<Rightarrow> True | Some x \<Rightarrow> encodable x)"

text \<open>
  The character the decoder works on for a digit of the encoder: the digit's character in
  the URL-safe alphabet, translated back to the standard alphabet.
\<close>

definition enc_ch :: "nat option \<Rightarrow> nat" where
  "enc_ch d = (\<lambda>c. if c = 45 then 43 else if c = 95 then 47 else c)
                ((\<lambda>c. if c = 43 then 45 else if c = 47 then 95 else c)
                  (case d of None \<Rightarrow> 61 | Some x \<Rightarrow> table_b2a x))"

text \<open>The cursor for a key, and the cursor that leads to position \<open>j\<close> of the store.\<close>

definition enc :: "pystr \<Rightarrow> pystr" where
  "enc k = urlsafe_b64encode (concat (map utf8_char k))"

definition cursor_at :: "'v rdict \<Rightarrow> nat \<Rightarrow> pystr option" where
  "cursor_at db j = (if j = 0 then None else Some (enc (fst (db ! (j - 1)))))"

section \<open>Example stores\<close>

definition small_store :: "string rdict" where
  "small_store = [([1], ''a''), ([2, 1], ''b''), ([2, 5], ''c''), ([3], ''d'')]"

definition item_store :: "nat \<Rightarrow> nat rdict" where
  "item_store n = map (\<lambda>i. ([105, 116, 101, 109, 58, 48 + i], i)) [0..<n]"

definition empty_key_store :: "string rdict" where
  "empty_key_store = [([], ''a''), ([97], ''b'')]"

section \<open>Propagation of exceptions\<close>

lemma cons_ok_Inr [simp]: "cons_ok x (Inr xs) = Inr (x # xs)"
  by (simp add: cons_ok_def bind_err_def)

lemma cons_ok_Inl [simp]: "cons_ok x (Inl e) = Inl e"
  by (simp add: cons_ok_def bind_err_def)

lemma bind_err_Inr [simp]: "bind_err (Inr x) f = f x"
  by (simp add: bind_err_def)

lemma bind_err_Inl [simp]: "bind_err (Inl e) f = Inl e"
  by (simp add: bind_err_def)

lemma bind_err_eq_Inr:
  "bind_err m f = Inr y \<longleftrightarrow> (\<exists>x. m = Inr x \<and> f x = Inr y)"
  by (cases m) simp_all

lemma encodable_append: "encodable (xs @ ys) \<longleftrightarrow> encodable xs \<and> encodable ys"
  by (simp add: encodable_def)

lemma encodable_zero: "encodable [0]"
  by (simp add: encodable_def is_codepoint_def is_surrogate_def)

section \<open>The contents of the store stay in key order\<close>

text \<open>
  A store that starts empty and changes by \<open>put\<close> and \<open>delete\<close> only holds its pairs in
  strictly ascending key order, under keys that UTF-8 can encode; these are the
  assumptions \<open>wf_store\<close> and \<open>valid_keys\<close> of the results on iteration and pagination.
\<close>

lemma keys_insert_pair: "fst ` set (insert_pair db k v) = insert k (fst ` set db)"
  by (induction db k v rule: insert_pair.induct) auto

lemma wf_store_insert_pair: "wf_store db \<Longrightarrow> wf_store (insert_pair db k v)"
proof (induction db k v rule: insert_pair.induct)
  case (1 key v)
  then show ?case by (simp add: wf_store_def)
next
  case (2 k w db key v)
  from "2.prems" have tl: "wf_store db" and hd: "\<forall>x\<in>fst ` set db. k < x"
    by (auto simp: wf_store_def)
  show ?case
  proof (cases "key < k")
    case True
    with "2.prems" show ?thesis by (auto simp: wf_store_def)
  next
    case False
    show ?thesis
    proof (cases "key = k")
      case True
      with "2.prems" show ?thesis by (simp add: wf_store_def)
    next
      case ne: False
      with False have lt: "k < key" by simp
      have "wf_store (insert_pair db key v)" using "2.IH"[OF False ne tl] .
      moreover have "\<forall>x\<in>fst ` set (insert_pair db key v). k < x"
        using hd lt by (simp add: keys_insert_pair)
      ultimately show ?thesis using False ne
        by (simp add: wf_store_def image_iff Ball_def)
    qed
  qed
qed

lemma wf_store_put: "wf_store db \<Longrightarrow> rdict_put db k v = Inr db' \<Longrightarrow> wf_store db'"
  by (auto simp: rdict_put_def wf_store_insert_pair split: if_splits)

lemma valid_keys_put: "valid_keys db \<Longrightarrow> rdict_put db k v = Inr db' \<Longrightarrow> valid_keys db'"
proof -
  assume vk: "valid_keys db" and put: "rdict_put db k v = Inr db'"
  from put have k: "encodable k" and db': "db' = insert_pair db k v"
    by (auto simp: rdict_put_def split: if_splits)
  have "\<forall>x\<in>fst ` set db'. encodable x"
    using vk k unfolding db' keys_insert_pair by (auto simp: valid_keys_def list_all_iff)
  then show "valid_keys db'"
    by (auto simp: valid_keys_def list_all_iff)
qed

lemma wf_store_delete: "wf_store db \<Longrightarrow> delete db key = Inr db' \<Longrightarrow> wf_store db'"
  unfolding wf_store_def delete_def rdict_delitem_def sorted_wrt_map
  by (auto intro: sorted_wrt_filter split: if_splits)

lemma valid_keys_delete: "valid_keys db \<Longrightarrow> delete db key = Inr db' \<Longrightarrow> valid_keys db'"
  by (auto simp: valid_keys_def delete_def rdict_delitem_def list_all_iff split: if_splits)

lemma wf_store_empty: "wf_store [] \<and> valid_keys []"
  by (simp add: wf_store_def valid_keys_def)

text \<open>A string that cannot be encoded makes the store, and so \<open>get\<close> and \<open>delete\<close>, raise.\<close>

lemma get_unencodable: "\<not> encodable key \<Longrightarrow> get db key dflt = Inl UnicodeEncodeError"
  by (simp add: get_def rdict_get_def except_key_error_def)

lemma delete_unencodable: "\<not> encodable key \<Longrightarrow> delete db key = Inl UnicodeEncodeError"
  by (simp add: delete_def rdict_delitem_def)

section \<open>The iteration loop computes the selected pairs\<close>

lemma startswith_ge: "startswith k p \<Longrightarrow> p \<le> k"
proof (induction p arbitrary: k)
  case Nil then show ?case by simp
next
  case (Cons a p)
  then show ?case by (cases k) (auto simp: startswith_def)
qed

lemma startswith_between:
  "startswith k' p \<Longrightarrow> p \<le> k \<Longrightarrow> k \<le> k' \<Longrightarrow> startswith k p"
proof (induction p arbitrary: k k')
  case Nil then show ?case by (simp add: startswith_def)
next
  case (Cons a p)
  from Cons.prems(1) obtain r' where k': "k' = a # r'" and r': "startswith r' p"
    by (cases k') (auto simp: startswith_def)
  from Cons.prems(2) obtain b r where k: "k = b # r"
    by (cases k) auto
  from Cons.prems(2,3) k k' have "b = a" by auto
  with Cons.prems(2,3) k k' have "p \<le> r" "r \<le> r'" by auto
  with Cons.IH[OF r'] have "startswith r p" by blast
  with k \<open>b = a\<close> show ?case by (simp add: startswith_def)
qed

lemma not_startswith_above:
  "p < k \<Longrightarrow> \<not> startswith k p \<Longrightarrow> k \<le> k' \<Longrightarrow> \<not> startswith k' p"
  using startswith_between[of k' p k] order.strict_implies_order[of p k] by blast

lemma not_startswith_below:
  "k < p \<Longrightarrow> k' \<le> k \<Longrightarrow> \<not> startswith k' p"
  using startswith_ge[of k' p] order.strict_trans1[of k' k p] order.strict_trans2[of k' p k'] by blast

lemma wf_store_nth_mono:
  "wf_store db \<Longrightarrow> i < j \<Longrightarrow> j < length db \<Longrightarrow> fst (db ! i) < fst (db ! j)"
  unfolding wf_store_def
  by (simp add: sorted_wrt_iff_nth_less)

lemma below_iff: "below s k = (case s of None \<Rightarrow> False | Some x \<Rightarrow> k < x)"
  by (simp add: below_def)

lemma selected_iff:
  "selected p s e kv \<longleftrightarrow> \<not> below s (fst kv) \<and> \<not> at_or_above e (fst kv) \<and> matches_prefix p (fst kv)"
  by (auto simp: selected_def in_bounds_def below_def at_or_above_def split: option.splits)

lemma matches_prefix_iff:
  "matches_prefix p k \<longleftrightarrow> \<not> (has_prefix_arg p \<and> \<not> startswith k (case p of Some q \<Rightarrow> q | None \<Rightarrow> []))"
  by (auto simp: matches_prefix_def has_prefix_arg_def startswith_def split: option.splits)

lemma filter_empty_above:
  assumes "wf_store db" "i < length db" "\<And>k. fst (db ! i) \<le> k \<Longrightarrow> \<not> P k"
  shows "filter (\<lambda>kv. P (fst kv)) (drop i db) = []"
proof -
  have "\<not> P (fst kv)" if "kv \<in> set (drop i db)" for kv
  proof -
    from that obtain j where j: "j < length db - i" "kv = db ! (i + j)"
      by (auto simp: in_set_conv_nth)
    have "fst (db ! i) \<le> fst (db ! (i + j))"
    proof (cases "j = 0")
      case True then show ?thesis by simp
    next
      case False
      then have "fst (db ! i) < fst (db ! (i + j))"
        using wf_store_nth_mono[OF assms(1), of i "i + j"] j by simp
      then show ?thesis by simp
    qed
    with assms(3) j show ?thesis by simp
  qed
  then show ?thesis by (simp add: filter_empty_conv)
qed

lemma filter_empty_below:
  assumes "wf_store db" "i < length db" "\<And>k. k \<le> fst (db ! i) \<Longrightarrow> \<not> P k"
  shows "filter (\<lambda>kv. P (fst kv)) (take (Suc i) db) = []"
proof -
  have "\<not> P (fst kv)" if "kv \<in> set (take (Suc i) db)" for kv
  proof -
    from that assms(2) obtain j where j: "j < Suc i" "kv = db ! j"
      by (auto simp: in_set_conv_nth)
    have "fst (db ! j) \<le> fst (db ! i)"
    proof (cases "j = i")
      case True then show ?thesis by simp
    next
      case False
      then have "fst (db ! j) < fst (db ! i)"
        using wf_store_nth_mono[OF assms(1), of j i] j assms(2) by simp
      then show ?thesis by simp
    qed
    with assms(3) j show ?thesis by simp
  qed
  then show ?thesis by (simp add: filter_empty_conv)
qed

lemma iter_loop_forward:
  assumes wf: "wf_store db"
  shows "i < length db \<Longrightarrow>
    iter_loop db p s e False (Some i) = filter (selected p s e) (drop i db)"
proof (induction "length db - i" arbitrary: i)
  case 0
  then show ?case by simp
next
  case (Suc n)
  let ?k = "fst (db ! i)"
  let ?q = "case p of Some q \<Rightarrow> q | None \<Rightarrow> []"
  have drop: "drop i db = db ! i # drop (Suc i) db"
    using Suc.prems by (simp add: Cons_nth_drop_Suc)
  have rest: "iter_loop db p s e False (it_next db (Some i)) = filter (selected p s e) (drop (Suc i) db)"
  proof (cases "Suc i < length db")
    case True
    then show ?thesis using Suc.hyps(1)[of "Suc i"] Suc.hyps(2) by (simp add: it_next_def)
  next
    case False
    then show ?thesis by (simp add: it_next_def iter_loop.simps[of _ _ _ _ _ None] valid_def)
  qed
  have v: "valid db (Some i)" using Suc.prems by (simp add: valid_def)
  consider (brk_end) "at_or_above e ?k"
    | (skip_start) "\<not> at_or_above e ?k" "below s ?k"
    | (brk_pre) "\<not> at_or_above e ?k" "\<not> below s ?k" "\<not> matches_prefix p ?k" "?k > ?q"
    | (skip_pre) "\<not> at_or_above e ?k" "\<not> below s ?k" "\<not> matches_prefix p ?k" "\<not> ?k > ?q"
    | (yield) "\<not> at_or_above e ?k" "\<not> below s ?k" "matches_prefix p ?k"
    by blast
  then show ?case
  proof cases
    case brk_end
    have "filter (\<lambda>kv. selected p s e (fst kv, snd kv)) (drop i db) = []"
      unfolding selected_def fst_conv
      apply (rule filter_empty_above[OF wf Suc.prems, of "\<lambda>k. in_bounds s e k \<and> matches_prefix p k"])
      using brk_end by (auto simp: in_bounds_def at_or_above_def split: option.splits)
    then show ?thesis using brk_end v
      by (subst iter_loop.simps) (simp add: Let_def)
  next
    case skip_start
    then have "\<not> selected p s e (db ! i)" by (simp add: selected_iff)
    then show ?thesis using skip_start v rest drop
      by (subst iter_loop.simps) (simp add: Let_def)
  next
    case brk_pre
    have "filter (\<lambda>kv. selected p s e (fst kv, snd kv)) (drop i db) = []"
      unfolding selected_def fst_conv
      apply (rule filter_empty_above[OF wf Suc.prems, of "\<lambda>k. in_bounds s e k \<and> matches_prefix p k"])
      using brk_pre not_startswith_above[of ?q ?k]
      by (auto simp: matches_prefix_def split: option.splits)
    then show ?thesis using brk_pre v
      by (subst iter_loop.simps) (simp add: Let_def matches_prefix_iff)
  next
    case skip_pre
    then have "\<not> selected p s e (db ! i)" by (simp add: selected_iff)
    then show ?thesis using skip_pre v rest drop
      by (subst iter_loop.simps) (simp add: Let_def matches_prefix_iff)
  next
    case yield
    then have "selected p s e (db ! i)" by (simp add: selected_iff)
    then show ?thesis using yield v rest drop
      by (subst iter_loop.simps) (auto simp add: Let_def matches_prefix_iff)
  qed
qed


lemma iter_loop_reverse:
  assumes wf: "wf_store db"
  shows "i < length db \<Longrightarrow>
    iter_loop db p s e True (Some i) = rev (filter (selected p s e) (take (Suc i) db))"
proof (induction i)
  case 0
  let ?k = "fst (db ! 0)"
  let ?q = "case p of Some q \<Rightarrow> q | None \<Rightarrow> []"
  have tk: "take (Suc 0) db = [db ! 0]"
    using 0 by (cases db) auto
  have v: "valid db (Some 0)" using 0 by (simp add: valid_def)
  have rest: "iter_loop db p s e True (it_prev db (Some 0)) = []"
    by (simp add: it_prev_def iter_loop.simps[of _ _ _ _ _ None] valid_def)
  show ?case
    unfolding tk using v rest
    by (subst iter_loop.simps)
       (auto simp: Let_def selected_iff matches_prefix_iff)
next
  case (Suc j)
  let ?i = "Suc j"
  let ?k = "fst (db ! ?i)"
  let ?q = "case p of Some q \<Rightarrow> q | None \<Rightarrow> []"
  have tk: "take (Suc ?i) db = take ?i db @ [db ! ?i]"
    using Suc.prems by (simp add: take_Suc_conv_app_nth)
  have rest: "iter_loop db p s e True (it_prev db (Some ?i)) = rev (filter (selected p s e) (take ?i db))"
    using Suc.IH Suc.prems by (simp add: it_prev_def)
  have v: "valid db (Some ?i)" using Suc.prems by (simp add: valid_def)
  consider (brk_start) "below s ?k"
    | (skip_end) "\<not> below s ?k" "at_or_above e ?k"
    | (brk_pre) "\<not> at_or_above e ?k" "\<not> below s ?k" "\<not> matches_prefix p ?k" "?k < ?q"
    | (skip_pre) "\<not> at_or_above e ?k" "\<not> below s ?k" "\<not> matches_prefix p ?k" "\<not> ?k < ?q"
    | (yield) "\<not> at_or_above e ?k" "\<not> below s ?k" "matches_prefix p ?k"
    by blast
  then show ?case
  proof cases
    case brk_start
    have "filter (\<lambda>kv. selected p s e (fst kv, snd kv)) (take (Suc ?i) db) = []"
      unfolding selected_def fst_conv
      apply (rule filter_empty_below[OF wf Suc.prems, of "\<lambda>k. in_bounds s e k \<and> matches_prefix p k"])
      using brk_start by (auto simp: in_bounds_def below_def split: option.splits)
    then show ?thesis using brk_start v
      by (subst iter_loop.simps) (simp add: Let_def)
  next
    case skip_end
    then have "\<not> selected p s e (db ! ?i)" by (simp add: selected_iff)
    then show ?thesis using skip_end v rest tk
      by (subst iter_loop.simps) (simp add: Let_def)
  next
    case brk_pre
    have "filter (\<lambda>kv. selected p s e (fst kv, snd kv)) (take (Suc ?i) db) = []"
      unfolding selected_def fst_conv
      apply (rule filter_empty_below[OF wf Suc.prems, of "\<lambda>k. in_bounds s e k \<and> matches_prefix p k"])
      using brk_pre not_startswith_below[of ?k ?q]
      by (auto simp: matches_prefix_def split: option.splits)
    then show ?thesis using brk_pre v
      by (subst iter_loop.simps) (simp add: Let_def matches_prefix_iff)
  next
    case skip_pre
    then have "\<not> selected p s e (db ! ?i)" by (simp add: selected_iff)
    then show ?thesis using skip_pre v rest tk
      by (subst iter_loop.simps) (simp add: Let_def matches_prefix_iff)
  next
    case yield
    then have "selected p s e (db ! ?i)" by (simp add: selected_iff)
    then show ?thesis using yield v rest tk
      by (subst iter_loop.simps) (auto simp add: Let_def matches_prefix_iff)
  qed
qed


lemma takeWhile_below_not_selected:
  "filter (selected p (Some x) e) (takeWhile (\<lambda>kv. fst kv < x) db) = []"
  by (auto simp: filter_empty_conv selected_def in_bounds_def dest!: set_takeWhileD)

lemma dropWhile_above:
  "wf_store db \<Longrightarrow> kv \<in> set (dropWhile (\<lambda>kv. fst kv \<le> y) db) \<Longrightarrow> y < fst kv"
proof (induction db)
  case Nil then show ?case by simp
next
  case (Cons a db)
  show ?case
  proof (cases "fst a \<le> y")
    case True
    with Cons show ?thesis by (simp add: wf_store_def)
  next
    case False
    with Cons.prems show ?thesis by (auto simp: wf_store_def)
  qed
qed

lemma dropWhile_above_not_selected:
  "wf_store db \<Longrightarrow> filter (selected p s (Some y)) (dropWhile (\<lambda>kv. fst kv \<le> y) db) = []"
  using dropWhile_above[of db _ y]
  by (fastforce simp: filter_empty_conv selected_def in_bounds_def)

lemma seek_for_prev_discarded:
  "encodable_bound s \<Longrightarrow>
   (case s of Some x \<Rightarrow> bind_err (seek_for_prev db x) (\<lambda>_. Inr []) | None \<Rightarrow> Inr [])
     = (Inr [] :: error + (pystr \<times> 'v) list)"
  by (cases s) (simp_all add: encodable_bound_def seek_for_prev_def Let_def)

lemma iter_run_forward:
  assumes wf: "wf_store db" and es: "encodable_bound s"
  shows "iter_run db p s e False = Inr (filter (selected p s e) db)"
proof (cases s)
  case None
  show ?thesis
  proof (cases "db = []")
    case True
    then show ?thesis by (simp add: iter_run_def None seek_to_first_def valid_def)
  next
    case False
    then have "0 < length db" by simp
    from iter_loop_forward[OF wf this, of p s e] False show ?thesis
      by (simp add: iter_run_def None seek_to_first_def valid_def)
  qed
next
  case (Some x)
  from es Some have x: "encodable x" by (simp add: encodable_bound_def)
  let ?tw = "takeWhile (\<lambda>kv. fst kv < x) db"
  let ?i = "length ?tw"
  have split: "filter (selected p s e) db = filter (selected p s e) (drop ?i db)"
  proof -
    have "db = ?tw @ drop ?i db"
      by (metis takeWhile_dropWhile_id dropWhile_eq_drop)
    then have "filter (selected p s e) db = filter (selected p s e) ?tw @ filter (selected p s e) (drop ?i db)"
      by (metis filter_append)
    then show ?thesis using takeWhile_below_not_selected[of p x e db] Some by simp
  qed
  show ?thesis
  proof (cases "?i < length db")
    case True
    from iter_loop_forward[OF wf True, of p s e] True split show ?thesis
      by (simp add: iter_run_def Some seek_def valid_def Let_def x)
  next
    case False
    then have "drop ?i db = []" by simp
    with split False show ?thesis
      by (simp add: iter_run_def Some seek_def valid_def Let_def x)
  qed
qed

lemma iter_run_reverse:
  assumes wf: "wf_store db" and es: "encodable_bound s" and ee: "encodable_bound e"
  shows "iter_run db p s e True = Inr (rev (filter (selected p s e) db))"
proof (cases e)
  case None
  show ?thesis
  proof (cases "db = []")
    case True
    then show ?thesis
      by (simp add: iter_run_def None seek_to_last_def valid_def seek_for_prev_discarded[OF es])
  next
    case False
    then have "length db - 1 < length db" by simp
    from iter_loop_reverse[OF wf this, of p s e] False show ?thesis
      by (simp add: iter_run_def None seek_to_last_def valid_def)
  qed
next
  case (Some y)
  from ee Some have y: "encodable y" by (simp add: encodable_bound_def)
  let ?tw = "takeWhile (\<lambda>kv. fst kv \<le> y) db"
  let ?n = "length ?tw"
  have n_le: "?n \<le> length db" by (rule length_takeWhile_le)
  have split: "filter (selected p s e) db = filter (selected p s e) (take ?n db)"
  proof -
    have "db = take ?n db @ dropWhile (\<lambda>kv. fst kv \<le> y) db"
      by (metis takeWhile_dropWhile_id takeWhile_eq_take)
    then have "filter (selected p s e) db =
        filter (selected p s e) (take ?n db) @ filter (selected p s e) (dropWhile (\<lambda>kv. fst kv \<le> y) db)"
      by (metis filter_append)
    then show ?thesis using dropWhile_above_not_selected[OF wf, of p s y] Some by simp
  qed
  show ?thesis
  proof (cases "?n = 0")
    case True
    with split show ?thesis
      by (simp add: iter_run_def Some seek_for_prev_def valid_def Let_def y
          seek_for_prev_discarded[OF es])
  next
    case False
    then have lt: "?n - 1 < length db" using n_le by linarith
    from False have "Suc (?n - 1) = ?n" by linarith
    moreover from False have "?tw \<noteq> []" by simp
    ultimately show ?thesis
      using iter_loop_reverse[OF wf lt, of p s e] lt split
      by (simp add: iter_run_def Some seek_for_prev_def valid_def Let_def y)
  qed
qed

lemma iter_run_spec:
  "wf_store db \<Longrightarrow> encodable_bound s \<Longrightarrow> encodable_bound e \<Longrightarrow>
   iter_run db p s e rv =
     Inr (if rv then rev (filter (selected p s e) db) else filter (selected p s e) db)"
  by (cases rv) (simp_all add: iter_run_forward iter_run_reverse)

text \<open>A bound that cannot be encoded makes the seek, and so the iteration, raise.\<close>

lemma iter_run_forward_unencodable:
  "\<not> encodable x \<Longrightarrow> iter_run db p (Some x) e False = Inl UnicodeEncodeError"
  by (simp add: iter_run_def seek_def)

lemma iter_run_reverse_unencodable:
  "\<not> encodable y \<Longrightarrow> iter_run db p s (Some y) True = Inl UnicodeEncodeError"
  by (simp add: iter_run_def seek_for_prev_def)

lemma iter_loop_startswith:
  "has_prefix_arg p \<Longrightarrow> kv \<in> set (iter_loop db p s e rv it) \<Longrightarrow>
   startswith (fst kv) (case p of Some q \<Rightarrow> q | None \<Rightarrow> [])"
proof (induction db p s e rv it rule: iter_loop.induct)
  case (1 db p s e rv it)
  from "1.prems"(2) have v: "valid db it"
    by (subst (asm) iter_loop.simps) (auto split: if_splits)
  define i where "i = (case it of Some j \<Rightarrow> j | None \<Rightarrow> 0)"
  define key where "key = fst (db ! i)"
  define step where "step = (if rv then it_prev db it else it_next db it)"
  define q where "q = (case p of Some q \<Rightarrow> q | None \<Rightarrow> [])"
  from v have v': "\<not> \<not> valid db it" by simp
  note IH = "1.IH"[OF v' i_def key_def step_def]
  have unf: "iter_loop db p s e rv it =
     (if rv \<and> below s key then []
      else if rv \<and> at_or_above e key then iter_loop db p s e rv step
      else if \<not> rv \<and> at_or_above e key then []
      else if \<not> rv \<and> below s key then iter_loop db p s e rv step
      else if has_prefix_arg p \<and> \<not> startswith key q then
        (if rv then (if key < q then [] else iter_loop db p s e rv step)
         else (if key > q then [] else iter_loop db p s e rv step))
      else db ! i # iter_loop db p s e rv step)"
    using v by (subst iter_loop.simps) (simp add: Let_def i_def key_def step_def q_def)
  show ?case
    using "1.prems" IH unfolding unf q_def[symmetric]
    by (auto simp: key_def split: if_splits)
qed

lemma iter_run_startswith:
  assumes "has_prefix_arg p" and "iter_run db p s e rv = Inr xs" and "kv \<in> set xs"
  shows "startswith (fst kv) (case p of Some q \<Rightarrow> q | None \<Rightarrow> [])"
proof -
  from assms(2) obtain it where "xs = [] \<or> xs = iter_loop db p s e rv it"
    unfolding iter_run_def
    by (auto simp: bind_err_eq_Inr split: if_splits option.splits)
  with assms(3) have "kv \<in> set (iter_loop db p s e rv it)" by auto
  from iter_loop_startswith[OF assms(1) this] show ?thesis .
qed

section \<open>Cursors decode to what was encoded\<close>

lemma decode1:
  assumes "c < 0x80"
  shows "bytes_decode (utf8_char c @ rest) = cons_ok c (bytes_decode rest)"
  using assms by (simp add: utf8_char_def)

lemma decode2:
  assumes "0x80 \<le> c" "c < 0x800"
  shows "bytes_decode (utf8_char c @ rest) = cons_ok c (bytes_decode rest)"
proof -
  define d where "d = c div 0x40"
  define m where "m = c mod 0x40"
  have c: "c = d * 0x40 + m" by (simp add: d_def m_def)
  have d: "2 \<le> d" "d \<le> 31" using assms by (auto simp: d_def)
  have m: "m < 0x40" by (simp add: m_def)
  have u: "utf8_char c = [0xC0 + d, 0x80 + m]"
    using assms by (simp add: utf8_char_def d_def m_def)
  have b0: "\<not> 0xC0 + d < 0x80" "0xC2 \<le> 0xC0 + d" "0xC0 + d \<le> 0xDF" using d by auto
  have b1: "is_cont (0x80 + m)" using m by (simp add: is_cont_def)
  show ?thesis
    unfolding u using b0 b1 by (simp add: c)
qed

lemma decode3:
  assumes "0x800 \<le> c" "c < 0x10000" "\<not> is_surrogate c"
  shows "bytes_decode (utf8_char c @ rest) = cons_ok c (bytes_decode rest)"
proof -
  define d where "d = c div 0x1000"
  define e where "e = (c div 0x40) mod 0x40"
  define m where "m = c mod 0x40"
  have "c mod 0x1000 = 0x40 * (c div 0x40 mod 0x40) + c mod 0x40"
    using mod_mult2_eq[of c "0x40" "0x40"] by simp
  then have c: "c = d * 0x1000 + e * 0x40 + m"
    unfolding d_def e_def m_def using div_mult_mod_eq[of c "0x1000"] by linarith
  have d: "d \<le> 15" using assms(2) c by linarith
  have e: "e < 0x40" by (simp add: e_def)
  have m: "m < 0x40" by (simp add: m_def)
  have d0: "d = 0 \<Longrightarrow> 0x20 \<le> e"
    using assms(1) c m by linarith
  have d13: "d = 13 \<Longrightarrow> e \<le> 0x1F"
    using assms(2,3) c m e unfolding is_surrogate_def by linarith
  have u: "utf8_char c = [0xE0 + d, 0x80 + e, 0x80 + m]"
    using assms by (simp add: utf8_char_def d_def m_def e_def)
  have b0: "\<not> 0xE0 + d < 0x80" "\<not> (0xC2 \<le> 0xE0 + d \<and> 0xE0 + d \<le> 0xDF)"
      "0xE0 \<le> 0xE0 + d" "0xE0 + d \<le> 0xEF" using d by auto
  have b1: "second_of3 (0xE0 + d) (0x80 + e)"
    using d0 d13 e by (auto simp: second_of3_def is_cont_def)
  have b2: "is_cont (0x80 + m)" using m by (simp add: is_cont_def)
  show ?thesis
    unfolding u using b0 b1 b2 by (simp add: c)
qed

lemma decode4:
  assumes "0x10000 \<le> c" "c < 0x110000"
  shows "bytes_decode (utf8_char c @ rest) = cons_ok c (bytes_decode rest)"
proof -
  define d where "d = c div 0x40000"
  define f where "f = (c div 0x1000) mod 0x40"
  define e where "e = (c div 0x40) mod 0x40"
  define m where "m = c mod 0x40"
  have "c mod 0x1000 = 0x40 * (c div 0x40 mod 0x40) + c mod 0x40"
    using mod_mult2_eq[of c "0x40" "0x40"] by simp
  moreover have "c mod 0x40000 = 0x1000 * (c div 0x1000 mod 0x40) + c mod 0x1000"
    using mod_mult2_eq[of c "0x1000" "0x40"] by simp
  ultimately have c: "c = d * 0x40000 + f * 0x1000 + e * 0x40 + m"
    unfolding d_def e_def f_def m_def using div_mult_mod_eq[of c "0x40000"] by linarith
  have d: "d \<le> 4" using assms(2) c by linarith
  have f: "f < 0x40" by (simp add: f_def)
  have e: "e < 0x40" by (simp add: e_def)
  have m: "m < 0x40" by (simp add: m_def)
  have d0: "d = 0 \<Longrightarrow> 0x10 \<le> f"
    using assms(1) c e m by linarith
  have d4: "d = 4 \<Longrightarrow> f \<le> 0xF"
    using assms(2) c by linarith
  have u: "utf8_char c = [0xF0 + d, 0x80 + f, 0x80 + e, 0x80 + m]"
    using assms by (simp add: utf8_char_def d_def m_def e_def f_def)
  have b0: "\<not> 0xF0 + d < 0x80" "\<not> (0xC2 \<le> 0xF0 + d \<and> 0xF0 + d \<le> 0xDF)"
      "\<not> (0xE0 \<le> 0xF0 + d \<and> 0xF0 + d \<le> 0xEF)"
      "0xF0 \<le> 0xF0 + d" "0xF0 + d \<le> 0xF4" using d by auto
  have b1: "second_of4 (0xF0 + d) (0x80 + f)"
    using d0 d4 f by (auto simp: second_of4_def is_cont_def)
  have b2: "is_cont (0x80 + e)" "is_cont (0x80 + m)" using e m by (simp_all add: is_cont_def)
  show ?thesis
    unfolding u using b0 b1 b2 by (simp add: c)
qed

lemma decode_utf8_char:
  assumes "is_codepoint c" "\<not> is_surrogate c"
  shows "bytes_decode (utf8_char c @ rest) = cons_ok c (bytes_decode rest)"
proof -
  consider "c < 0x80" | "0x80 \<le> c" "c < 0x800" | "0x800 \<le> c" "c < 0x10000"
    | "0x10000 \<le> c" "c < 0x110000"
    using assms(1) unfolding is_codepoint_def by linarith
  then show ?thesis
    using assms(2) by cases (simp_all add: decode1 decode2 decode3 decode4)
qed

lemma bytes_decode_str_encode:
  "encodable s \<Longrightarrow> bytes_decode (concat (map utf8_char s)) = Inr s"
  by (induction s) (simp_all add: encodable_def decode_utf8_char)


lemma enc_ch_None: "enc_ch None = 61"
  by (simp add: enc_ch_def)

lemma enc_ch_Some:
  assumes "d < 64"
  shows "enc_ch (Some d) \<noteq> 61" "table_a2b (enc_ch (Some d)) = Some d"
proof -
  consider "d < 26" | "26 \<le> d" "d < 52" | "52 \<le> d" "d < 62" | "d = 62" | "d = 63"
    using assms by linarith
  then show "enc_ch (Some d) \<noteq> 61"
    by cases (auto simp: enc_ch_def table_b2a_def)
  consider "d < 26" | "26 \<le> d" "d < 52" | "52 \<le> d" "d < 62" | "d = 62" | "d = 63"
    using assms by linarith
  then show "table_a2b (enc_ch (Some d)) = Some d"
    by cases (auto simp: enc_ch_def table_b2a_def table_a2b_def)
qed

lemma a2b_digit:
  assumes "d < 64"
  shows "a2b_base64 (enc_ch (Some d) # cs) q l p =
     (if q = 0 then a2b_base64 cs 1 d 0
      else if q = 1 then cons_ok (l * 4 + d div 16) (a2b_base64 cs 2 (d mod 16) 0)
      else if q = 2 then cons_ok (l * 16 + d div 4) (a2b_base64 cs 3 (d mod 4) 0)
      else cons_ok (l * 64 + d) (a2b_base64 cs 0 0 0))"
  using enc_ch_Some[OF assms] by simp

lemma a2b_pad:
  "a2b_base64 (61 # cs) q l p =
     (if q \<ge> 2 \<and> q + (p + 1) \<ge> 4 then Inr []
      else a2b_base64 cs q l (if q \<ge> 2 then p + 1 else p))"
  by simp

lemma a2b_quad:
  assumes "d0 < 64" "d1 < 64" "d2 < 64" "d3 < 64"
  shows "a2b_base64 (enc_ch (Some d0) # enc_ch (Some d1) # enc_ch (Some d2) # enc_ch (Some d3) # cs) 0 0 0 =
     cons_ok (d0 * 4 + d1 div 16) (cons_ok ((d1 mod 16) * 16 + d2 div 4)
       (cons_ok ((d2 mod 4) * 64 + d3) (a2b_base64 cs 0 0 0)))"
  by (simp del: a2b_base64.simps(2) add: a2b_digit assms)

lemma a2b_pad2:
  assumes "d0 < 64" "d1 < 64"
  shows "a2b_base64 [enc_ch (Some d0), enc_ch (Some d1), 61, 61] 0 0 0 = Inr [d0 * 4 + d1 div 16]"
  by (simp del: a2b_base64.simps(2) add: a2b_digit a2b_pad assms)

lemma a2b_pad1:
  assumes "d0 < 64" "d1 < 64" "d2 < 64"
  shows "a2b_base64 [enc_ch (Some d0), enc_ch (Some d1), enc_ch (Some d2), 61] 0 0 0 =
     Inr [d0 * 4 + d1 div 16, (d1 mod 16) * 16 + d2 div 4]"
  by (simp del: a2b_base64.simps(2) add: a2b_digit a2b_pad assms)

lemma digit0: "(a::nat) < 256 \<Longrightarrow> a div 4 < 64"
  by simp

lemma digit1: "(b::nat) < 256 \<Longrightarrow> ((a::nat) mod 4) * 16 + b div 16 < 64"
proof -
  assume "b < 256"
  then have "b div 16 < 16" by simp
  moreover have "a mod 4 < 4" by simp
  ultimately show ?thesis by linarith
qed

lemma digit2: "(c::nat) < 256 \<Longrightarrow> ((b::nat) mod 16) * 4 + c div 64 < 64"
proof -
  assume "c < 256"
  then have "c div 64 < 4" by simp
  moreover have "b mod 16 < 16" by simp
  ultimately show ?thesis by linarith
qed

lemma digit3: "(c::nat) mod 64 < 64"
  by simp

lemma byte0:
  assumes "(b::nat) < 256"
  shows "(a::nat) div 4 * 4 + ((a mod 4) * 16 + b div 16) div 16 = a"
proof -
  have "b div 16 < 16" using assms by simp
  then have "((a mod 4) * 16 + b div 16) div 16 = a mod 4" by simp
  then show ?thesis by simp
qed

lemma byte1:
  assumes "(b::nat) < 256" "(c::nat) < 256"
  shows "(((a::nat) mod 4) * 16 + b div 16) mod 16 * 16 + ((b mod 16) * 4 + c div 64) div 4 = b"
proof -
  have c64: "c div 64 < 4" using assms by simp
  have b16: "b div 16 < 16" using assms by simp
  have 1: "((a mod 4) * 16 + b div 16) mod 16 = b div 16"
    using b16 by simp
  have 2: "((b mod 16) * 4 + c div 64) div 4 = b mod 16"
    using c64 by simp
  show ?thesis unfolding 1 2 by simp
qed

lemma byte2:
  assumes "(c::nat) < 256"
  shows "(((b::nat) mod 16) * 4 + c div 64) mod 4 * 64 + c mod 64 = c"
proof -
  have c64: "c div 64 < 4" using assms by simp
  have "((b mod 16) * 4 + c div 64) mod 4 = c div 64"
    using c64 by simp
  then show ?thesis by simp
qed

lemma a2b_b64_digits:
  "list_all (\<lambda>b. b < 256) bs \<Longrightarrow> a2b_base64 (map enc_ch (b64_digits bs)) 0 0 0 = Inr bs"
proof (induction bs rule: b64_digits.induct)
  case 1
  then show ?case by simp
next
  case (2 a)
  then have a: "a < 256" by simp
  have z: "(0::nat) < 256" by simp
  from a2b_pad2[OF digit0[OF a] digit1[OF z, of a]] byte0[OF z, of a] show ?case
    by (simp del: a2b_base64.simps(2) add: enc_ch_None)
next
  case (3 a b)
  then have ab: "a < 256" "b < 256" by simp_all
  have z: "(0::nat) < 256" by simp
  from a2b_pad1[OF digit0[OF ab(1)] digit1[OF ab(2), of a] digit2[OF z, of b]]
    byte0[OF ab(2), of a] byte1[OF ab(2) z, of a]
  show ?case
    by (simp del: a2b_base64.simps(2) add: enc_ch_None)
next
  case (4 a b c rest)
  then have abc: "a < 256" "b < 256" "c < 256" and rest: "list_all (\<lambda>b. b < 256) rest"
    by simp_all
  have "a2b_base64 (map enc_ch (b64_digits (a # b # c # rest))) 0 0 0 =
      cons_ok a (cons_ok b (cons_ok c (a2b_base64 (map enc_ch (b64_digits rest)) 0 0 0)))"
    using a2b_quad[OF digit0[OF abc(1)] digit1[OF abc(2), of a] digit2[OF abc(3), of b] digit3[of c]]
      byte0[OF abc(2), of a] byte1[OF abc(2,3), of a] byte2[OF abc(3), of b]
    by (simp del: a2b_base64.simps(2))
  also have "\<dots> = Inr (a # b # c # rest)"
    using "4.IH"[OF rest] by simp
  finally show ?case .
qed

lemma urlsafe_chars:
  "map (\<lambda>c. if c = 45 then 43 else if c = 95 then 47 else c) (urlsafe_b64encode bs)
     = map enc_ch (b64_digits bs)"
  by (simp add: urlsafe_b64encode_def b64encode_def enc_ch_def comp_def)

lemma urlsafe_roundtrip:
  "list_all (\<lambda>b. b < 256) bs \<Longrightarrow> urlsafe_b64decode (urlsafe_b64encode bs) = Inr bs"
  unfolding urlsafe_b64decode_def urlsafe_chars by (rule a2b_b64_digits)


lemma bytes_decode_ascii:
  "list_all (\<lambda>c. c < 128) s \<Longrightarrow> bytes_decode s = Inr s"
  by (induction s) simp_all

lemma str_encode_ascii:
  "list_all (\<lambda>c. c < 128) s \<Longrightarrow> str_encode s = Inr s"
proof -
  assume a: "list_all (\<lambda>c. c < 128) s"
  then have "encodable s"
    by (induction s) (simp_all add: encodable_def is_codepoint_def is_surrogate_def)
  moreover from a have "concat (map utf8_char s) = s"
    by (induction s) (simp_all add: utf8_char_def)
  ultimately show ?thesis by (simp add: str_encode_def)
qed

lemma table_b2a_ascii: "table_b2a d < 128"
  by (auto simp: table_b2a_def)

lemma urlsafe_b64encode_ascii: "list_all (\<lambda>c. c < 128) (urlsafe_b64encode bs)"
  using table_b2a_ascii
  by (auto simp: urlsafe_b64encode_def b64encode_def list_all_iff split: option.splits)

lemma mod64_byte: "0x80 + (x::nat) mod 0x40 < 256"
proof -
  have "x mod 0x40 < 0x40" by simp
  then show ?thesis by linarith
qed

lemma utf8_char_bytes:
  assumes "is_codepoint c"
  shows "list_all (\<lambda>b. b < 256) (utf8_char c)"
proof -
  have 4: "0xF0 + c div 0x40000 < 256"
    using assms unfolding is_codepoint_def by simp
  have 3: "c < 0x10000 \<Longrightarrow> 0xE0 + c div 0x1000 < 256" by simp
  have 2: "c < 0x800 \<Longrightarrow> 0xC0 + c div 0x40 < 256" by simp
  have 1: "c < 0x80 \<Longrightarrow> c < 256" by simp
  show ?thesis
    unfolding utf8_char_def using 1 2 3 4 mod64_byte
    by (simp del: One_nat_def)
qed

lemma utf8_bytes:
  "encodable s \<Longrightarrow> list_all (\<lambda>b. b < 256) (concat (map utf8_char s))"
  by (induction s) (simp_all add: encodable_def utf8_char_bytes)

lemma encode_cursor_eq:
  "encodable k \<Longrightarrow> encode_cursor k = Inr (urlsafe_b64encode (concat (map utf8_char k)))"
  by (simp add: encode_cursor_def str_encode_def bytes_decode_ascii urlsafe_b64encode_ascii)

lemma encode_cursor_error:
  "\<not> encodable k \<Longrightarrow> encode_cursor k = Inl UnicodeEncodeError"
  by (simp add: encode_cursor_def str_encode_def)

lemma decode_cursor_encoded:
  assumes "encodable k"
  shows "decode_cursor (urlsafe_b64encode (concat (map utf8_char k))) = Inr (k @ [0])"
  using assms
  by (simp add: decode_cursor_def str_encode_ascii urlsafe_b64encode_ascii
      urlsafe_roundtrip utf8_bytes bytes_decode_str_encode)

lemma utf8_char_nonempty: "utf8_char c \<noteq> []"
  by (simp add: utf8_char_def)

lemma b64_digits_nonempty: "bs \<noteq> [] \<Longrightarrow> b64_digits bs \<noteq> []"
  by (induction bs rule: b64_digits.induct) simp_all

lemma encoded_nonempty:
  "k \<noteq> [] \<Longrightarrow> urlsafe_b64encode (concat (map utf8_char k)) \<noteq> []"
proof -
  assume "k \<noteq> []"
  then have "concat (map utf8_char k) \<noteq> []"
    by (cases k) (simp_all add: utf8_char_nonempty)
  then show ?thesis
    by (simp add: urlsafe_b64encode_def b64encode_def b64_digits_nonempty)
qed

section \<open>Pages of a well-formed store\<close>

lemma iter_no_kwargs:
  "wf_store db \<Longrightarrow> iter db no_kwargs = Inr db"
  by (simp add: iter_def no_kwargs_def prefix_bounds_def swap_bounds_def iter_run_spec
      encodable_bound_def selected_def in_bounds_def matches_prefix_def)

lemma append_zero_le: "k @ [0::nat] \<le> k' \<longleftrightarrow> k < k'"
proof (induction k arbitrary: k')
  case Nil
  then show ?case by (cases k') auto
next
  case (Cons a k)
  then show ?case by (cases k') auto
qed

lemma iter_after_key:
  assumes "wf_store db" and "encodable k"
  shows "iter db (no_kwargs\<lparr>start := Some (k @ [0])\<rparr>) = Inr (filter (\<lambda>kv. k < fst kv) db)"
proof -
  have "selected None (Some (k @ [0])) None = (\<lambda>kv::pystr \<times> 'a. k < fst kv)"
    by (auto simp: fun_eq_iff selected_def in_bounds_def matches_prefix_def append_zero_le)
  then show ?thesis
    using assms
    by (simp add: iter_def no_kwargs_def prefix_bounds_def swap_bounds_def iter_run_spec
        encodable_bound_def encodable_append encodable_zero)
qed

lemma filter_after_nth:
  assumes wf: "wf_store db" and i: "i < length db"
  shows "filter (\<lambda>kv. fst (db ! i) < fst kv) db = drop (Suc i) db"
proof -
  have 1: "filter (\<lambda>kv. fst (db ! i) < fst kv) (take (Suc i) db) = []"
    using filter_empty_below[OF wf i, of "\<lambda>k. fst (db ! i) < k"] by simp
  have "fst (db ! i) < fst kv" if "kv \<in> set (drop (Suc i) db)" for kv
  proof -
    from that obtain j where j: "j < length db - Suc i" "kv = db ! (Suc i + j)"
      by (auto simp: in_set_conv_nth)
    then show ?thesis
      using wf_store_nth_mono[OF wf, of i "Suc i + j"] by simp
  qed
  then have 2: "filter (\<lambda>kv. fst (db ! i) < fst kv) (drop (Suc i) db) = drop (Suc i) db"
    by (simp add: filter_id_conv)
  have "filter (\<lambda>kv. fst (db ! i) < fst kv) db =
      filter (\<lambda>kv. fst (db ! i) < fst kv) (take (Suc i) db @ drop (Suc i) db)"
    by simp
  also have "\<dots> = drop (Suc i) db"
    unfolding filter_append 1 2 by simp
  finally show ?thesis .
qed

lemma valid_keys_nth: "valid_keys db \<Longrightarrow> i < length db \<Longrightarrow> encodable (fst (db ! i))"
  by (simp add: valid_keys_def list_all_length)

lemma paginate_page:
  assumes kw: "(case cursor of None \<Rightarrow> Inr kwargs
        | Some c \<Rightarrow> if c \<noteq> [] then bind_err (decode_cursor c) (\<lambda>k. Inr (kwargs\<lparr>start := Some k\<rparr>))
            else Inr kwargs) = Inr kw'"
    and full: "iter db kw' = Inr full"
    and ps: "1 \<le> ps" "ps < sys_maxsize"
    and enc: "list_all (\<lambda>kv. encodable (fst kv)) full"
  shows "paginate db ps cursor inc kwargs =
     Inr \<lparr>page_items = take (nat ps) full,
          has_more = (int (length full) > ps),
          next_cursor = (if int (length full) > ps then Some (enc (fst (full ! (nat ps - 1)))) else None),
          prev_cursor = (if inc \<and> truthy cursor then cursor else None)\<rparr>"
proof -
  define fetched where "fetched = take (nat (ps + 1)) full"
  define pg where "pg = take (nat ps) full"
  define key where "key = fst (full ! (nat ps - 1))"
  define prev where "prev = (if inc \<and> truthy cursor then cursor else None)"
  have it: "items db kw' (Some (ps + 1)) = Inr fetched"
    using ps full by (simp add: items_def islice_def fetched_def)
  show ?thesis
  proof (cases "int (length full) > ps")
    case True
    have more: "(int (length fetched) > ps) = True"
      using ps True by (auto simp: fetched_def)
    have sl: "slice_to fetched ps = pg"
      using ps by (simp add: slice_to_def min_def fetched_def pg_def)
    have ne: "pg \<noteq> []" using True ps by (auto simp: pg_def)
    have "length pg = nat ps" using True by (simp add: pg_def)
    with ne have "last pg = pg ! (nat ps - 1)"
      by (simp add: last_conv_nth)
    also have "\<dots> = full ! (nat ps - 1)"
      using ps by (simp add: pg_def)
    finally have lst: "fst (last pg) = key" by (simp add: key_def)
    have idx: "nat ps - 1 < length full" using True ps by auto
    have "encodable key"
      using enc idx by (simp add: list_all_length key_def)
    then have ec: "encode_cursor key = Inr (enc key)"
      by (simp add: encode_cursor_eq enc_def)
    have "paginate db ps cursor inc kwargs =
       Inr \<lparr>page_items = pg, has_more = True, next_cursor = Some (enc key), prev_cursor = prev\<rparr>"
      unfolding paginate_def kw bind_err_Inr it Let_def more sl prev_def
      by (simp add: ne lst ec)
    then show ?thesis
      using True by (simp add: pg_def key_def prev_def)
  next
    case False
    have more: "(int (length fetched) > ps) = False"
      using ps False by (auto simp: fetched_def)
    have f: "fetched = full" "take (nat ps) full = full" using ps False by (simp_all add: fetched_def)
    have "paginate db ps cursor inc kwargs =
       Inr \<lparr>page_items = fetched, has_more = False, next_cursor = None, prev_cursor = prev\<rparr>"
      unfolding paginate_def kw bind_err_Inr it Let_def more prev_def
      by simp
    then show ?thesis
      using False by (simp add: f prev_def)
  qed
qed


lemma later_key_nonempty:
  assumes "wf_store db" "0 < i" "i < length db"
  shows "fst (db ! i) \<noteq> []"
proof
  assume "fst (db ! i) = []"
  moreover have "fst (db ! 0) < fst (db ! i)"
    using wf_store_nth_mono[OF assms(1), of 0 i] assms(2,3) by simp
  ultimately show False by simp
qed

lemma paginate_at:
  assumes wf: "wf_store db" and vk: "valid_keys db"
    and ps: "1 \<le> ps" "ps < sys_maxsize"
    and j: "j \<le> length db" "j = 0 \<or> fst (db ! (j - 1)) \<noteq> []"
  shows "paginate db ps (cursor_at db j) True no_kwargs =
     Inr \<lparr>page_items = take (nat ps) (drop j db),
          has_more = (int (length db - j) > ps),
          next_cursor = (if int (length db - j) > ps then cursor_at db (j + nat ps) else None),
          prev_cursor = cursor_at db j\<rparr>"
proof -
  define full where "full = drop j db"
  have enc: "list_all (\<lambda>kv. encodable (fst kv)) full"
    using vk unfolding valid_keys_def full_def list_all_iff
    by (meson in_set_dropD)
  have nth: "fst (full ! (nat ps - 1)) = fst (db ! (j + nat ps - 1))" if "int (length db - j) > ps"
    using that ps j by (simp add: full_def)
  show ?thesis
  proof (cases "j = 0")
    case True
    have kw: "(case cursor_at db j of None \<Rightarrow> Inr no_kwargs
        | Some c \<Rightarrow> if c \<noteq> [] then bind_err (decode_cursor c) (\<lambda>k. Inr (no_kwargs\<lparr>start := Some k\<rparr>))
            else Inr no_kwargs) = Inr no_kwargs"
      by (simp add: cursor_at_def True)
    have it: "iter db no_kwargs = Inr full"
      using wf by (simp add: iter_no_kwargs full_def True)
    have "truthy (cursor_at db j) = False" by (simp add: True cursor_at_def truthy_def)
    with paginate_page[OF kw it ps enc, of True] nth ps show ?thesis
      by (auto simp: full_def True cursor_at_def)
  next
    case False
    define k where "k = fst (db ! (j - 1))"
    have jl: "j - 1 < length db" using False j by simp
    have kne: "k \<noteq> []" using j False by (simp add: k_def)
    have kenc: "encodable k" using valid_keys_nth[OF vk jl] by (simp add: k_def)
    have c: "cursor_at db j = Some (enc k)" using False by (simp add: cursor_at_def k_def)
    have ne: "enc k \<noteq> []" using encoded_nonempty[OF kne] by (simp add: enc_def)
    have dc: "decode_cursor (enc k) = Inr (k @ [0])"
      using decode_cursor_encoded[OF kenc] by (simp add: enc_def)
    have kw: "(case cursor_at db j of None \<Rightarrow> Inr no_kwargs
        | Some c \<Rightarrow> if c \<noteq> [] then bind_err (decode_cursor c) (\<lambda>k. Inr (no_kwargs\<lparr>start := Some k\<rparr>))
            else Inr no_kwargs) = Inr (no_kwargs\<lparr>start := Some (k @ [0])\<rparr>)"
      by (simp add: c ne dc)
    have "filter (\<lambda>kv. k < fst kv) db = drop (Suc (j - 1)) db"
      unfolding k_def by (rule filter_after_nth[OF wf jl])
    then have it: "iter db (no_kwargs\<lparr>start := Some (k @ [0])\<rparr>) = Inr full"
      using False by (simp add: iter_after_key[OF wf kenc] full_def)
    have t: "truthy (cursor_at db j)" by (simp add: c truthy_def ne)
    from paginate_page[OF kw it ps enc, of True] nth ps t show ?thesis
      by (auto simp: full_def cursor_at_def)
  qed
qed

lemma pages_count:
  assumes "0 < (p::nat)" "p < r"
  shows "Suc (if r - p = 0 then 1 else (r - p + p - 1) div p) = (r + p - 1) div p"
proof -
  have 1: "r - p \<noteq> 0" using assms by simp
  have 2: "r - p + p - 1 = r - 1" using assms by linarith
  have e: "r + p - 1 = (r - 1) + p" using assms by linarith
  have 3: "((r - 1) + p) div p = (r - 1) div p + 1"
    using assms(1) by (intro div_add_self2) simp
  show ?thesis
    unfolding e 3 using 1 by (simp only: 2 if_False)
qed

lemma one_page_count:
  assumes "0 < (p::nat)" "r \<le> p"
  shows "(if r = 0 then 1 else (r + p - 1) div p) = 1"
proof (cases "r = 0")
  case True then show ?thesis by simp
next
  case False
  then have "p * 1 \<le> r + p - 1" "r + p - 1 < p * Suc 1" using assms by simp_all
  then have "(r + p - 1) div p = 1"
    by (rule div_nat_eqI)
  with False show ?thesis by simp
qed

lemma paginate_all_complete:
  assumes wf: "wf_store db" and vk: "valid_keys db"
    and ps: "2 \<le> ps" "ps < sys_maxsize"
  shows "0 < fuel \<Longrightarrow> j \<le> length db \<Longrightarrow> j = 0 \<or> 2 \<le> j \<Longrightarrow> length db - j \<le> fuel * nat ps \<Longrightarrow>
     \<exists>pages. paginate_all fuel db ps (cursor_at db j) = Some (Inr pages)
       \<and> concat (map page_items pages) = drop j db
       \<and> pages \<noteq> [] \<and> \<not> has_more (last pages) \<and> next_cursor (last pages) = None
       \<and> length pages = (if length db - j = 0 then 1 else (length db - j + nat ps - 1) div nat ps)
       \<and> (\<forall>p\<in>set pages. length (page_items p) \<le> nat ps)"
proof (induction fuel arbitrary: j)
  case 0
  then show ?case by simp
next
  case (Suc f)
  define r where "r = \<lparr>page_items = take (nat ps) (drop j db),
          has_more = (int (length db - j) > ps),
          next_cursor = (if int (length db - j) > ps then cursor_at db (j + nat ps) else None),
          prev_cursor = cursor_at db j\<rparr>"
  have ps1: "1 \<le> ps" using ps by simp
  have key: "j = 0 \<or> fst (db ! (j - 1)) \<noteq> []"
  proof (cases "j = 0")
    case True then show ?thesis by simp
  next
    case False
    with Suc.prems have "0 < j - 1" "j - 1 < length db" by auto
    from later_key_nonempty[OF wf this] show ?thesis by simp
  qed
  have page: "paginate db ps (cursor_at db j) True no_kwargs = Inr r"
    unfolding r_def by (rule paginate_at[OF wf vk ps1 ps(2) Suc.prems(2) key])
  have len_r: "length (page_items r) \<le> nat ps" by (simp add: r_def)
  show ?case
  proof (cases "int (length db - j) > ps")
    case False
    then have rem: "length db - j \<le> nat ps" using ps by linarith
    have nm: "\<not> has_more r" using False by (simp add: r_def)
    have all: "paginate_all (Suc f) db ps (cursor_at db j) = Some (Inr [r])"
      using page nm by simp
    have items: "page_items r = drop j db" using rem by (simp add: r_def)
    have nc: "next_cursor r = None" using False by (simp add: r_def)
    have cnt: "(if length db - j = 0 then 1 else (length db - j + nat ps - 1) div nat ps) = 1"
      using one_page_count[of "nat ps" "length db - j"] rem ps by simp
    show ?thesis
      using all items nm nc len_r cnt by simp
  next
    case True
    then have rem: "nat ps < length db - j" using ps by linarith
    have hm: "has_more r" using True by (simp add: r_def)
    have nc: "next_cursor r = cursor_at db (j + nat ps)" using True by (simp add: r_def)
    have jp: "0 < j + nat ps - 1" "j + nat ps - 1 < length db" using ps rem by linarith+
    have "enc (fst (db ! (j + nat ps - 1))) \<noteq> []"
      using encoded_nonempty[OF later_key_nonempty[OF wf jp]] by (simp add: enc_def)
    then have tr: "truthy (next_cursor r)"
      using ps by (simp add: nc cursor_at_def truthy_def)
    have f0: "0 < f"
    proof (rule ccontr)
      assume "\<not> 0 < f"
      then have "f = 0" by simp
      with Suc.prems(4) rem show False by simp
    qed
    have j': "j + nat ps \<le> length db" "j + nat ps = 0 \<or> 2 \<le> j + nat ps"
      using rem ps by linarith+
    have rem': "length db - (j + nat ps) \<le> f * nat ps"
      using Suc.prems(4) by simp
    from Suc.IH[OF f0 j' rem'] obtain pages where
      pa: "paginate_all f db ps (cursor_at db (j + nat ps)) = Some (Inr pages)"
      and cc: "concat (map page_items pages) = drop (j + nat ps) db"
      and ne: "pages \<noteq> []" and lm: "\<not> has_more (last pages)" and ln: "next_cursor (last pages) = None"
      and cnt: "length pages = (if length db - (j + nat ps) = 0 then 1
                 else (length db - (j + nat ps) + nat ps - 1) div nat ps)"
      and sz: "\<forall>p\<in>set pages. length (page_items p) \<le> nat ps"
      by blast
    have all: "paginate_all (Suc f) db ps (cursor_at db j) = Some (Inr (r # pages))"
      using page hm tr pa nc by simp
    have "concat (map page_items (r # pages)) = take (nat ps) (drop j db) @ drop (nat ps) (drop j db)"
      using cc by (simp add: r_def add.commute)
    then have items: "concat (map page_items (r # pages)) = drop j db"
      by (simp only: append_take_drop_id)
    have np: "0 < nat ps" using ps by simp
    have cnt2: "length pages = (if length db - j - nat ps = 0 then 1
                 else (length db - j - nat ps + nat ps - 1) div nat ps)"
      using cnt by simp
    have rem0: "(length db - j = 0) = False" using rem by simp
    have "length (r # pages) = Suc (length pages)" by simp
    also have "\<dots> = Suc (if length db - j - nat ps = 0 then 1
                 else (length db - j - nat ps + nat ps - 1) div nat ps)"
      by (simp only: cnt2)
    also have "\<dots> = (length db - j + nat ps - 1) div nat ps"
      by (rule pages_count[OF np rem])
    finally have cnt': "length (r # pages) =
        (if length db - j = 0 then 1 else (length db - j + nat ps - 1) div nat ps)"
      by (simp only: rem0 if_False)
    have c1: "r # pages \<noteq> []" by simp
    have c2: "\<not> has_more (last (r # pages))" using ne lm by simp
    have c3: "next_cursor (last (r # pages)) = None" using ne ln by simp
    have c4: "\<forall>p\<in>set (r # pages). length (page_items p) \<le> nat ps"
      using sz len_r by simp
    from all items c1 c2 c3 cnt' c4 show ?thesis by blast
  qed
qed

section \<open>What \<open>iter\<close> returns on a well-formed store\<close>

lemma iter_spec:
  assumes "wf_store db"
    and "prefix_bounds (prefix a) (start a) (end a) = Inr (s0, e0)"
    and "swap_bounds (reverse a) s0 e0 = (s, e)"
    and "encodable_bound s" and "encodable_bound e"
  shows "iter db a =
     Inr (if reverse a then rev (filter (selected (prefix a) s e) db)
          else filter (selected (prefix a) s e) db)"
  by (simp add: iter_def assms(2,3) iter_run_spec[OF assms(1,4,5)])

lemma wf_small_store: "wf_store small_store"
  by (simp add: wf_store_def small_store_def)



text \<open>
  The bound derived from a prefix: the strings with the prefix are those from the prefix
  up to, and not including, the prefix with its last character incremented.
\<close>

lemma prefix_upper_ok:
  "p \<noteq> [] \<Longrightarrow> last p < 0x10FFFF \<Longrightarrow> prefix_upper p = Inr (butlast p @ [last p + 1])"
  by (simp add: prefix_upper_def chr_def)

lemma iter_prefix_last_codepoint:
  "p \<noteq> [] \<Longrightarrow> last p = 0x10FFFF \<Longrightarrow>
   iter db \<lparr>prefix = Some p, start = s, end = None, reverse = rv\<rparr> = Inl ValueError"
  by (simp add: iter_def prefix_bounds_def prefix_upper_def chr_def)

lemma iter_prefix_before_surrogates:
  "iter db \<lparr>prefix = Some [0xD7FF], start = None, end = None, reverse = True\<rparr>
     = Inl UnicodeEncodeError"
  by (simp add: iter_def prefix_bounds_def prefix_upper_def chr_def swap_bounds_def
      iter_run_def seek_for_prev_def encodable_def is_surrogate_def)

lemma startswith_iff_interval:
  "p \<noteq> [] \<Longrightarrow> startswith k p \<longleftrightarrow> p \<le> k \<and> k < butlast p @ [last p + 1]"
proof (induction p arbitrary: k)
  case Nil
  then show ?case by simp
next
  case (Cons a p)
  show ?case
  proof (cases "p = []")
    case True
    then show ?thesis
      by (cases k) (auto simp: startswith_def)
  next
    case False
    show ?thesis
    proof (cases k)
      case Nil
      then show ?thesis by (simp add: startswith_def)
    next
      case (Cons x r)
      have "startswith (x # r) (a # p) \<longleftrightarrow> x = a \<and> startswith r p"
        by (auto simp: startswith_def)
      also have "\<dots> \<longleftrightarrow> a # p \<le> x # r \<and> x # r < butlast (a # p) @ [last (a # p) + 1]"
        using Cons.IH[OF False, of r] False by auto
      finally show ?thesis using Cons by simp
    qed
  qed
qed

lemma prefix_upper_above:
  "p \<noteq> [] \<Longrightarrow> startswith k p \<Longrightarrow> k < butlast p @ [last p + 1]"
  by (simp add: startswith_iff_interval)

lemma prefix_upper_least:
  assumes "p \<noteq> []" and above: "\<And>k. startswith k p \<Longrightarrow> k < u"
  shows "butlast p @ [last p + 1] \<le> u"
proof (rule ccontr)
  assume "\<not> butlast p @ [last p + 1] \<le> u"
  then have "u < butlast p @ [last p + 1]" by simp
  moreover have "p \<le> u"
    using above[of p] by (simp add: startswith_def)
  ultimately have "startswith u p"
    using assms(1) by (simp add: startswith_iff_interval)
  from above[OF this] show False by simp
qed

text \<open>The example stores are well formed.\<close>

lemma wf_item_store: "wf_store (item_store n)"
proof -
  have "sorted_wrt (<) [0..<n]" by simp
  then have "sorted_wrt (\<lambda>i j. [105, 116, 101, 109, 58, 48 + i] < [105, 116, 101, 109, 58, 48 + j]) [0..<n]"
    by (rule sorted_wrt_mono_rel[rotated]) simp
  then show ?thesis
    by (simp add: wf_store_def item_store_def sorted_wrt_map comp_def)
qed

lemma valid_item_store: "n \<le> 100 \<Longrightarrow> valid_keys (item_store n)"
  by (auto simp: valid_keys_def item_store_def list_all_iff encodable_def
      is_codepoint_def is_surrogate_def)

lemma length_item_store: "length (item_store n) = n"
  by (simp add: item_store_def)

lemma valid_small_store: "valid_keys small_store"
  by (simp add: valid_keys_def small_store_def encodable_def is_codepoint_def is_surrogate_def)

lemma paginate_small_store:
  "paginate small_store 2 None True no_kwargs =
     Inr \<lparr>page_items = [([1], ''a''), ([2, 1], ''b'')], has_more = True,
          next_cursor = Some [65, 103, 69, 61], prev_cursor = None\<rparr>"
proof -
  have kw: "(case None of None \<Rightarrow> Inr no_kwargs
        | Some c \<Rightarrow> if c \<noteq> [] then bind_err (decode_cursor c) (\<lambda>k. Inr (no_kwargs\<lparr>start := Some k\<rparr>))
            else Inr no_kwargs) = Inr no_kwargs"
    by simp
  have ps: "(1::int) \<le> 2" "(2::int) < sys_maxsize" by (simp_all add: sys_maxsize_def)
  have en: "list_all (\<lambda>kv. encodable (fst kv)) small_store"
    using valid_small_store by (simp add: valid_keys_def)
  have e: "enc [2, 1] = [65, 103, 69, 61]"
    by (simp add: enc_def urlsafe_b64encode_def b64encode_def utf8_char_def table_b2a_def)
  from paginate_page[OF kw iter_no_kwargs[OF wf_small_store] ps en, of True] e show ?thesis
    by (simp add: small_store_def truthy_def)
qed

text \<open>Cursors: the round trip, and the page that a cursor leads to.\<close>

lemma cursor_round_trip:
  "encodable k \<Longrightarrow> \<exists>c. encode_cursor k = Inr c \<and> decode_cursor c = Inr (k @ [0])"
  by (simp add: encode_cursor_eq decode_cursor_encoded)

lemma paginate_resumes_after_key:
  assumes wf: "wf_store db" and vk: "valid_keys db"
    and k: "encodable k" "k \<noteq> []"
    and ps: "1 \<le> ps" "ps < sys_maxsize"
  shows "\<exists>c r. encode_cursor k = Inr c \<and> paginate db ps (Some c) inc no_kwargs = Inr r
       \<and> page_items r = take (nat ps) (filter (\<lambda>kv. k < fst kv) db)
       \<and> k \<notin> fst ` set (page_items r)"
proof -
  define full where "full = filter (\<lambda>kv. k < fst kv) db"
  have ne: "enc k \<noteq> []" using encoded_nonempty[OF k(2)] by (simp add: enc_def)
  have dc: "decode_cursor (enc k) = Inr (k @ [0])"
    using decode_cursor_encoded[OF k(1)] by (simp add: enc_def)
  have kw: "(case Some (enc k) of None \<Rightarrow> Inr no_kwargs
        | Some c \<Rightarrow> if c \<noteq> [] then bind_err (decode_cursor c) (\<lambda>k. Inr (no_kwargs\<lparr>start := Some k\<rparr>))
            else Inr no_kwargs) = Inr (no_kwargs\<lparr>start := Some (k @ [0])\<rparr>)"
    by (simp add: ne dc)
  have it: "iter db (no_kwargs\<lparr>start := Some (k @ [0])\<rparr>) = Inr full"
    unfolding full_def by (rule iter_after_key[OF wf k(1)])
  have en: "list_all (\<lambda>kv. encodable (fst kv)) full"
    using vk by (auto simp: valid_keys_def full_def list_all_iff)
  have "k \<notin> fst ` set (take (nat ps) full)"
    by (auto simp: full_def dest!: in_set_takeD)
  with paginate_page[OF kw it ps en, of inc] encode_cursor_eq[OF k(1)] show ?thesis
    by (simp add: enc_def full_def)
qed

text \<open>
  With \<open>reverse=True\<close> the decoded cursor is still the lower bound: the page after a cursor
  holds the greatest keys above the cursor's key, in descending order.
\<close>

lemma iter_reverse_after_key:
  assumes "wf_store db" and "encodable k"
  shows "iter db (no_kwargs\<lparr>reverse := True, start := Some (k @ [0])\<rparr>)
           = Inr (rev (filter (\<lambda>kv. k < fst kv) db))"
proof -
  have "selected None (Some (k @ [0])) None = (\<lambda>kv::pystr \<times> 'a. k < fst kv)"
    by (auto simp: fun_eq_iff selected_def in_bounds_def matches_prefix_def append_zero_le)
  then show ?thesis
    using assms
    by (simp add: iter_def no_kwargs_def prefix_bounds_def swap_bounds_def iter_run_spec
        encodable_bound_def encodable_append encodable_zero)
qed

lemma paginate_reverse_after_key:
  assumes wf: "wf_store db" and vk: "valid_keys db"
    and k: "encodable k" "k \<noteq> []"
    and ps: "1 \<le> ps" "ps < sys_maxsize"
  shows "\<exists>c r. encode_cursor k = Inr c
       \<and> paginate db ps (Some c) inc (no_kwargs\<lparr>reverse := True\<rparr>) = Inr r
       \<and> page_items r = take (nat ps) (rev (filter (\<lambda>kv. k < fst kv) db))"
proof -
  define full where "full = rev (filter (\<lambda>kv. k < fst kv) db)"
  have ne: "enc k \<noteq> []" using encoded_nonempty[OF k(2)] by (simp add: enc_def)
  have dc: "decode_cursor (enc k) = Inr (k @ [0])"
    using decode_cursor_encoded[OF k(1)] by (simp add: enc_def)
  have kw: "(case Some (enc k) of None \<Rightarrow> Inr (no_kwargs\<lparr>reverse := True\<rparr>)
        | Some c \<Rightarrow> if c \<noteq> []
            then bind_err (decode_cursor c) (\<lambda>k. Inr (no_kwargs\<lparr>reverse := True\<rparr>\<lparr>start := Some k\<rparr>))
            else Inr (no_kwargs\<lparr>reverse := True\<rparr>))
      = Inr (no_kwargs\<lparr>reverse := True, start := Some (k @ [0])\<rparr>)"
    by (simp add: ne dc)
  have it: "iter db (no_kwargs\<lparr>reverse := True, start := Some (k @ [0])\<rparr>) = Inr full"
    unfolding full_def by (rule iter_reverse_after_key[OF wf k(1)])
  have en: "list_all (\<lambda>kv. encodable (fst kv)) full"
    using vk by (auto simp: valid_keys_def full_def list_all_iff)
  from paginate_page[OF kw it ps en, of inc] encode_cursor_eq[OF k(1)] show ?thesis
    by (simp add: enc_def full_def)
qed

lemma wf_empty_key_store: "wf_store empty_key_store \<and> valid_keys empty_key_store"
  by (simp add: wf_store_def valid_keys_def empty_key_store_def encodable_def
      is_codepoint_def is_surrogate_def)

lemma paginate_empty_key_store:
  "paginate empty_key_store 1 None True no_kwargs =
     Inr \<lparr>page_items = [([], ''a'')], has_more = True,
          next_cursor = Some [], prev_cursor = None\<rparr>"
  "paginate empty_key_store 1 (Some []) True no_kwargs =
     Inr \<lparr>page_items = [([], ''a'')], has_more = True,
          next_cursor = Some [], prev_cursor = None\<rparr>"
proof -
  have wf: "wf_store empty_key_store" and vk: "valid_keys empty_key_store"
    using wf_empty_key_store by simp_all
  have ps: "(1::int) \<le> 1" "(1::int) < sys_maxsize" by (simp_all add: sys_maxsize_def)
  have en: "list_all (\<lambda>kv. encodable (fst kv)) empty_key_store"
    using vk by (simp add: valid_keys_def)
  have e: "enc [] = []"
    by (simp add: enc_def urlsafe_b64encode_def b64encode_def)
  have kw1: "(case None of None \<Rightarrow> Inr no_kwargs
        | Some c \<Rightarrow> if c \<noteq> [] then bind_err (decode_cursor c) (\<lambda>k. Inr (no_kwargs\<lparr>start := Some k\<rparr>))
            else Inr no_kwargs) = Inr no_kwargs"
    by simp
  have kw2: "(case Some [] of None \<Rightarrow> Inr no_kwargs
        | Some c \<Rightarrow> if c \<noteq> [] then bind_err (decode_cursor c) (\<lambda>k. Inr (no_kwargs\<lparr>start := Some k\<rparr>))
            else Inr no_kwargs) = Inr no_kwargs"
    by simp
  from paginate_page[OF kw1 iter_no_kwargs[OF wf] ps en, of True] e
  show "paginate empty_key_store 1 None True no_kwargs =
     Inr \<lparr>page_items = [([], ''a'')], has_more = True,
          next_cursor = Some [], prev_cursor = None\<rparr>"
    by (simp add: empty_key_store_def truthy_def)
  from paginate_page[OF kw2 iter_no_kwargs[OF wf] ps en, of True] e
  show "paginate empty_key_store 1 (Some []) True no_kwargs =
     Inr \<lparr>page_items = [([], ''a'')], has_more = True,
          next_cursor = Some [], prev_cursor = None\<rparr>"
    by (simp add: empty_key_store_def truthy_def)
qed

lemma paginate_all_empty_key_store:
  "paginate_all fuel empty_key_store 1 None =
     (if fuel = 0 then None
      else Some (Inr [\<lparr>page_items = [([], ''a'')], has_more = True,
                        next_cursor = Some [], prev_cursor = None\<rparr>]))"
  by (cases fuel) (simp_all add: paginate_empty_key_store truthy_def)

section \<open>The properties of the specification\<close>

text \<open>
  C1: for a store of 100 items under distinct string keys, calling \<open>paginate\<close> with page
  size 10, first without a cursor and then with the \<open>next_cursor\<close> of the page before,
  ends after ten calls; the pages together are the 100 items, each once and in ascending
  key order, and the last page has \<open>has_more\<close> false and no \<open>next_cursor\<close>.
\<close>

theorem C1_pagination_complete:
  assumes "wf_store db" and "valid_keys db" and "length db = 100"
  shows "\<exists>pages. paginate_all 10 db 10 None = Some (Inr pages)
       \<and> length pages = 10
       \<and> concat (map page_items pages) = db
       \<and> sorted_wrt (<) (map fst (concat (map page_items pages)))
       \<and> \<not> has_more (last pages) \<and> next_cursor (last pages) = None"
proof -
  have ps: "(2::int) \<le> 10" "(10::int) < sys_maxsize" by (simp_all add: sys_maxsize_def)
  have "\<exists>pages. paginate_all 10 db 10 (cursor_at db 0) = Some (Inr pages)
       \<and> concat (map page_items pages) = drop 0 db
       \<and> pages \<noteq> [] \<and> \<not> has_more (last pages) \<and> next_cursor (last pages) = None
       \<and> length pages = (if length db - 0 = 0 then 1 else (length db - 0 + nat 10 - 1) div nat 10)
       \<and> (\<forall>p\<in>set pages. length (page_items p) \<le> nat 10)"
    using assms(3) by (intro paginate_all_complete[OF assms(1,2) ps]) simp_all
  then obtain pages where
    p: "paginate_all 10 db 10 None = Some (Inr pages)"
    and c: "concat (map page_items pages) = db"
    and l: "\<not> has_more (last pages)" "next_cursor (last pages) = None"
    and n: "length pages = 10"
    using assms(3) by (auto simp: cursor_at_def)
  have "sorted_wrt (<) (map fst (concat (map page_items pages)))"
    using assms(1) by (simp add: c wf_store_def)
  with p c l n show ?thesis by blast
qed

theorem C1_pagination_complete_witness:
  "wf_store (item_store 100) \<and> valid_keys (item_store 100) \<and> length (item_store 100) = 100
   \<and> (\<exists>pages. paginate_all 10 (item_store 100) 10 None = Some (Inr pages)
        \<and> length pages = 10 \<and> concat (map page_items pages) = item_store 100)"
proof -
  have h: "wf_store (item_store 100)" "valid_keys (item_store 100)" "length (item_store 100) = 100"
    by (simp_all add: wf_item_store valid_item_store length_item_store)
  from C1_pagination_complete[OF h] h show ?thesis by blast
qed





text \<open>
  C4: the upper bound of a prefix is the prefix with its last character replaced by the
  next one, the least string above every string with the prefix (lemmas
  \<open>prefix_upper_ok\<close>, \<open>prefix_upper_above\<close> and \<open>prefix_upper_least\<close>).  For a prefix that
  ends in the last character, U+10FFFF, the specification asks for an iteration without
  upper bound; the code has no such case, calls \<open>chr(0x110000)\<close>, and the iteration raises
  \<open>ValueError\<close>, on every store, in both directions and for every \<open>start\<close>.  (A reverse
  iteration also fails for a prefix that ends in U+D7FF, whose bound ends in a surrogate
  that the store cannot seek: lemma \<open>iter_prefix_before_surrogates\<close>.)
\<close>

theorem C4_prefix_last_codepoint_raises:
  "iter db \<lparr>prefix = Some [0x10FFFF], start = s, end = None, reverse = rv\<rparr> = Inl ValueError"
  by (simp add: iter_def prefix_bounds_def prefix_upper_def chr_def)

text \<open>
  C5: decoding the cursor made from a key \<open>k\<close> gives \<open>k\<close> followed by the character \<open>\0\<close>
  (lemma \<open>cursor_round_trip\<close>), and for every non-empty key a page asked for with that
  cursor holds the first stored pairs with a key strictly greater than \<open>k\<close> (lemma
  \<open>paginate_resumes_after_key\<close>).  For the empty key the property fails: its cursor is the
  empty string, which \<open>paginate\<close> takes for no cursor (\<open>if cursor:\<close>), so the page asked for
  with the cursor that the first page returned is the first page again and returns the
  key itself, although \<open>_decode_cursor\<close> is written to exclude the current key.
\<close>

theorem C5_empty_key_cursor_returns_key_again:
  "encode_cursor [] = Inr []
   \<and> decode_cursor [] = Inr [0]
   \<and> paginate empty_key_store 1 None True no_kwargs =
       Inr \<lparr>page_items = [([], ''a'')], has_more = True,
            next_cursor = Some [], prev_cursor = None\<rparr>
   \<and> paginate empty_key_store 1 (Some []) True no_kwargs =
       Inr \<lparr>page_items = [([], ''a'')], has_more = True,
            next_cursor = Some [], prev_cursor = None\<rparr>"
  using paginate_empty_key_store
  by (simp add: encode_cursor_def decode_cursor_def str_encode_def encodable_def
      urlsafe_b64encode_def urlsafe_b64decode_def b64encode_def)

text \<open>
  C6: \<open>paginate\<close> asks \<open>items\<close> for \<open>page_size + 1\<close> pairs of the iteration (started
  after the cursor's key when a cursor is given).  There are more pages exactly when
  that many pairs came back, and the page is the first \<open>page_size\<close> of them, so the extra
  pair is dropped.  When there are more pages, \<open>next_cursor\<close> is the encoding of the key
  of the last pair of the page (a page of a positive size then has a last pair);
  when there are no more pages it is \<open>None\<close>.
\<close>

theorem C6_paginate_fetch_and_trim:
  assumes "paginate db page_size cursor include_cursor kwargs = Inr r"
  shows "\<exists>kw fetched.
       (case cursor of
          None \<Rightarrow> kw = kwargs
        | Some c \<Rightarrow> if c \<noteq> [] then \<exists>k. decode_cursor c = Inr k \<and> kw = kwargs\<lparr>start := Some k\<rparr>
                    else kw = kwargs)
       \<and> items db kw (Some (page_size + 1)) = Inr fetched
       \<and> int (length fetched) \<le> page_size + 1
       \<and> (0 \<le> page_size \<longrightarrow>
            (\<exists>full. iter db kw = Inr full \<and> fetched = take (nat (page_size + 1)) full))
       \<and> has_more r = (int (length fetched) = page_size + 1)
       \<and> page_items r = take (nat page_size) fetched
       \<and> (1 \<le> page_size \<and> has_more r \<longrightarrow> page_items r \<noteq> [])
       \<and> (has_more r \<and> page_items r \<noteq> [] \<longrightarrow>
            (\<exists>c. encode_cursor (fst (last (page_items r))) = Inr c \<and> next_cursor r = Some c))
       \<and> (\<not> has_more r \<longrightarrow> next_cursor r = None)"
proof -
  define pg where "pg fetched = (if int (length fetched) > page_size
      then slice_to fetched page_size else fetched)" for fetched :: "(pystr \<times> 'a) list"
  from assms obtain kw fetched nc where
    kw: "(case cursor of None \<Rightarrow> Inr kwargs
          | Some c \<Rightarrow> if c \<noteq> [] then bind_err (decode_cursor c) (\<lambda>k. Inr (kwargs\<lparr>start := Some k\<rparr>))
              else Inr kwargs) = Inr kw"
    and it: "items db kw (Some (page_size + 1)) = Inr fetched"
    and nc: "(if int (length fetched) > page_size \<and> pg fetched \<noteq> []
             then bind_err (encode_cursor (fst (last (pg fetched)))) (\<lambda>c. Inr (Some c))
             else Inr None) = Inr nc"
    and r: "r = \<lparr>page_items = pg fetched,
               has_more = (int (length fetched) > page_size), next_cursor = nc,
               prev_cursor = (if include_cursor \<and> truthy cursor then cursor else None)\<rparr>"
    unfolding paginate_def bind_err_eq_Inr Let_def pg_def by auto
  have kw': "(case cursor of
          None \<Rightarrow> kw = kwargs
        | Some c \<Rightarrow> if c \<noteq> [] then \<exists>k. decode_cursor c = Inr k \<and> kw = kwargs\<lparr>start := Some k\<rparr>
                    else kw = kwargs)"
    using kw by (auto simp: bind_err_eq_Inr split: option.splits if_splits)
  have len: "int (length fetched) \<le> page_size + 1"
    using it by (auto simp: items_def islice_def bind_err_eq_Inr split: if_splits)
  have full: "0 \<le> page_size \<longrightarrow>
      (\<exists>full. iter db kw = Inr full \<and> fetched = take (nat (page_size + 1)) full)"
    using it by (auto simp: items_def islice_def bind_err_eq_Inr split: if_splits)
  have more: "(int (length fetched) > page_size) = (int (length fetched) = page_size + 1)"
    using len by linarith
  have pg: "pg fetched = take (nat page_size) fetched"
  proof (cases "int (length fetched) > page_size")
    case True
    show ?thesis
    proof (cases "0 \<le> page_size")
      case True
      with \<open>int (length fetched) > page_size\<close> show ?thesis
        by (simp add: pg_def slice_to_def)
    next
      case False
      with len have "length fetched = 0" by linarith
      then have "fetched = []" by simp
      then show ?thesis by (simp add: pg_def slice_to_def)
    qed
  next
    case False
    then have "length fetched \<le> nat page_size" by linarith
    with False show ?thesis by (simp add: pg_def)
  qed
  have ne: "1 \<le> page_size \<and> has_more r \<longrightarrow> page_items r \<noteq> []"
    unfolding r using pg by auto
  have hm: "has_more r \<and> page_items r \<noteq> [] \<longrightarrow>
            (\<exists>c. encode_cursor (fst (last (page_items r))) = Inr c \<and> next_cursor r = Some c)"
  proof
    assume a: "has_more r \<and> page_items r \<noteq> []"
    then have m: "int (length fetched) > page_size" and n: "pg fetched \<noteq> []"
      by (simp_all add: r)
    from nc m n obtain c where "encode_cursor (fst (last (pg fetched))) = Inr c" "nc = Some c"
      by (auto simp: bind_err_eq_Inr)
    then show "\<exists>c. encode_cursor (fst (last (page_items r))) = Inr c \<and> next_cursor r = Some c"
      by (simp add: r)
  qed
  have nm: "\<not> has_more r \<longrightarrow> next_cursor r = None"
    using nc by (auto simp: r)
  have hm_eq: "has_more r = (int (length fetched) = page_size + 1)"
    using more by (simp add: r)
  have pi: "page_items r = take (nat page_size) fetched"
    using pg by (simp add: r)
  from kw' it len full hm_eq pi ne hm nm show ?thesis by blast
qed

theorem C6_paginate_fetch_and_trim_witness:
  "paginate small_store 2 None True no_kwargs =
       Inr \<lparr>page_items = [([1], ''a''), ([2, 1], ''b'')], has_more = True,
            next_cursor = Some [65, 103, 69, 61], prev_cursor = None\<rparr>
   \<and> (\<exists>fetched. items small_store no_kwargs (Some 3) = Inr fetched \<and> int (length fetched) = 3
        \<and> take 2 fetched = [([1], ''a''), ([2, 1], ''b'')])
   \<and> encode_cursor [2, 1] = Inr [65, 103, 69, 61]"
  using C6_paginate_fetch_and_trim[OF paginate_small_store] paginate_small_store
  by auto





text \<open>
  C9: when a non-empty prefix is given, every pair that \<open>iter\<close> yields has a key that
  starts with the prefix, forwards and backwards, whatever the store holds and whatever
  the bounds are.
\<close>

theorem C9_yielded_keys_have_prefix:
  assumes "p \<noteq> []"
    and "iter db \<lparr>prefix = Some p, start = s, end = e, reverse = rv\<rparr> = Inr xs"
    and "kv \<in> set xs"
  shows "startswith (fst kv) p"
proof -
  have hp: "has_prefix_arg (Some p)" using assms(1) by (simp add: has_prefix_arg_def)
  from assms(2) obtain s0 e0 where
    r: "(case swap_bounds rv s0 e0 of (s', e') \<Rightarrow> iter_run db (Some p) s' e' rv) = Inr xs"
    by (auto simp: iter_def bind_err_eq_Inr Let_def)
  obtain s' e' where sb: "swap_bounds rv s0 e0 = (s', e')"
    by (cases "swap_bounds rv s0 e0") simp
  from r sb have "iter_run db (Some p) s' e' rv = Inr xs" by simp
  from iter_run_startswith[OF hp this assms(3)] show ?thesis by simp
qed

theorem C9_yielded_keys_have_prefix_witness:
  "[2::nat] \<noteq> []
   \<and> iter small_store \<lparr>prefix = Some [2], start = None, end = None, reverse = True\<rparr>
       = Inr [([2, 5], ''c''), ([2, 1], ''b'')]
   \<and> ([2, 5], ''c'') \<in> set [([2, 5], ''c''), ([2, 1], ''b'')]
   \<and> startswith (fst ([2, 5], ''c'')) [2]"
proof -
  have h1: "[2::nat] \<noteq> []" by simp
  have pb: "prefix_bounds (Some [2]) None None = Inr (Some [2], Some [3])"
    by (simp add: prefix_bounds_def prefix_upper_def chr_def)
  have sb: "swap_bounds True (Some [2]) (Some [3]) = (Some [2], Some [3::nat])"
    by (simp add: swap_bounds_def)
  have eb: "encodable_bound (Some [2])" "encodable_bound (Some [3])"
    by (simp_all add: encodable_bound_def encodable_def is_codepoint_def is_surrogate_def)
  have h2: "iter small_store \<lparr>prefix = Some [2], start = None, end = None, reverse = True\<rparr>
       = Inr [([2, 5], ''c''), ([2, 1], ''b'')]"
    using iter_spec[OF wf_small_store, of "\<lparr>prefix = Some [2], start = None, end = None, reverse = True\<rparr>"
        "Some [2]" "Some [3]" "Some [2]" "Some [3]"] pb sb eb
    by (simp add: selected_def in_bounds_def matches_prefix_def startswith_def small_store_def)
  have h3: "([2, 5], ''c'') \<in> set [([2, 5], ''c''), ([2, 1], ''b'')]" by simp
  from C9_yielded_keys_have_prefix[OF h1 h2 h3] h1 h2 h3 show ?thesis by blast
qed

text \<open>
  C10: for a page size of at least one, whatever the cursor and the store, the result of
  \<open>paginate\<close> holds at most \<open>page_size\<close> items, and its \<open>next_cursor\<close> is set exactly
  when \<open>has_more\<close> is true.
\<close>

theorem C10_page_bounded:
  assumes "1 \<le> page_size"
    and "paginate db page_size cursor include_cursor kwargs = Inr r"
  shows "int (length (page_items r)) \<le> page_size \<and> (next_cursor r \<noteq> None \<longleftrightarrow> has_more r)"
proof -
  from assms(2) obtain kw fetched nc where
    it: "items db kw (Some (page_size + 1)) = Inr fetched"
    and nc: "(if int (length fetched) > page_size
                \<and> (if int (length fetched) > page_size then slice_to fetched page_size else fetched) \<noteq> []
             then bind_err (encode_cursor (fst (last
                 (if int (length fetched) > page_size then slice_to fetched page_size else fetched))))
                 (\<lambda>c. Inr (Some c))
             else Inr None) = Inr nc"
    and r: "r = \<lparr>page_items = (if int (length fetched) > page_size then slice_to fetched page_size else fetched),
               has_more = (int (length fetched) > page_size), next_cursor = nc,
               prev_cursor = (if include_cursor \<and> truthy cursor then cursor else None)\<rparr>"
    unfolding paginate_def bind_err_eq_Inr Let_def by auto
  show ?thesis
  proof (cases "int (length fetched) > page_size")
    case True
    have sl: "slice_to fetched page_size = take (nat page_size) fetched"
      using assms(1) by (simp add: slice_to_def)
    have ne: "take (nat page_size) fetched \<noteq> []" using True assms(1) by auto
    from nc True sl ne obtain c where "nc = Some c"
      by (auto simp: bind_err_eq_Inr)
    then show ?thesis using True sl assms(1) by (simp add: r)
  next
    case False
    with nc have "nc = None" by simp
    then show ?thesis using False by (simp add: r)
  qed
qed

theorem C10_page_bounded_witness:
  "(1::int) \<le> 2
   \<and> paginate small_store 2 None True no_kwargs =
       Inr \<lparr>page_items = [([1], ''a''), ([2, 1], ''b'')], has_more = True,
            next_cursor = Some [65, 103, 69, 61], prev_cursor = None\<rparr>
   \<and> int (length [([1::nat], ''a''), ([2, 1], ''b'')]) \<le> 2"
proof -
  have h1: "(1::int) \<le> 2" by simp
  from C10_page_bounded[OF h1 paginate_small_store] h1 paginate_small_store
  show ?thesis by simp
qed

end
